theory Spec2Isabelle
  imports Complex_Main "HOL-Library.Char_ord" "HOL-Library.List_Lexorder"
begin

section \<open>Values of the platform\<close>

text \<open>
  The tools are TypeScript programs driving a browser through Playwright. Strings are
  modelled as \<^typ>\<open>string\<close>; every string the modelled functions build or compare is
  ASCII (host names and path names come out of the platform's URL parser, which
  percent-encodes and punycodes), so bytes and UTF-16 code units coincide.

  The platform's \<^verbatim>\<open>URL\<close> class is not part of the sources: the parser is a
  parameter \<open>parseURL\<close>, which yields the parsed object or nothing (the constructor
  throws a \<^verbatim>\<open>TypeError\<close>).
\<close>

datatype error = TypeError | Error string

record URL =
  hostname :: string
  pathname :: string
  origin :: string

type_synonym url_parser = "string \<Rightarrow> URL option"

text \<open>\<^verbatim>\<open>s.replace(/c/g, d)\<close> for a single character \<open>c\<close>.\<close>

definition replace_char :: "char \<Rightarrow> char \<Rightarrow> string \<Rightarrow> string" where
  "replace_char c d s = map (\<lambda>x. if x = c then d else x) s"

section \<open>Folder names\<close>

text \<open>
  scraper: \<^verbatim>\<open>getDomainFolder(url) = new URL(url).hostname.replace(/\./g, '-')\<close>.
\<close>

definition getDomainFolder :: "url_parser \<Rightarrow> string \<Rightarrow> error + string" where
  "getDomainFolder parseURL u =
     (case parseURL u of
        None \<Rightarrow> Inl TypeError
      | Some urlObj \<Rightarrow> Inr (replace_char (CHR ''.'') (CHR ''-'') (hostname urlObj)))"

text \<open>
  cropper: \<^verbatim>\<open>subfolderToHostname(subfolder) = subfolder.replace(/-/g, '.')\<close>.
\<close>

definition subfolderToHostname :: "string \<Rightarrow> string" where
  "subfolderToHostname subfolder = replace_char (CHR ''-'') (CHR ''.'') subfolder"

section \<open>Time values and their ISO rendering\<close>

text \<open>
  \<^verbatim>\<open>new Date().toISOString()\<close> is the platform's. It is modelled after the
  language standard (ECMAScript, Date objects): a time value is a number of milliseconds
  since 1970-01-01T00:00:00Z, here an \<^typ>\<open>int\<close>; the standard's \<open>Day\<close>,
  \<open>DayFromYear\<close>, \<open>YearFromTime\<close>, \<open>MonthFromTime\<close>,
  \<open>DateFromTime\<close>, \<open>HourFromTime\<close>, \<open>MinFromTime\<close>, \<open>SecFromTime\<close> and
  \<open>msFromTime\<close> keep their names. The standard defines \<open>YearFromTime t\<close> as the
  largest \<open>y\<close> with \<open>TimeFromYear y \<le> t\<close>; the definition below computes it from an
  estimate corrected by at most one year, and lemma \<open>YearFromDay_bounds\<close> shows that it is
  that year.
\<close>

definition msPerDay :: int where
  "msPerDay = 86400000"

definition Day :: "int \<Rightarrow> int" where
  "Day t = t div msPerDay"

definition DayFromYear :: "int \<Rightarrow> int" where
  "DayFromYear y =
     365 * (y - 1970) + (y - 1969) div 4 - (y - 1901) div 100 + (y - 1601) div 400"

definition YearFromDay :: "int \<Rightarrow> int" where
  "YearFromDay d =
     (let y = 1970 + (400 * d) div 146097
      in if d < DayFromYear y then y - 1
         else if DayFromYear (y + 1) \<le> d then y + 1
         else y)"

definition YearFromTime :: "int \<Rightarrow> int" where
  "YearFromTime t = YearFromDay (Day t)"

definition DaysInYear :: "int \<Rightarrow> int" where
  "DaysInYear y =
     (if y mod 4 \<noteq> 0 then 365
      else if y mod 100 \<noteq> 0 then 366
      else if y mod 400 \<noteq> 0 then 365
      else 366)"

definition InLeapYear :: "int \<Rightarrow> int" where
  "InLeapYear t = (if DaysInYear (YearFromTime t) = 365 then 0 else 1)"

definition DayWithinYear :: "int \<Rightarrow> int" where
  "DayWithinYear t = Day t - DayFromYear (YearFromTime t)"

definition MonthFromTime :: "int \<Rightarrow> int" where
  "MonthFromTime t =
     (let d = DayWithinYear t; l = InLeapYear t
      in if d < 31 then 0
         else if d < 59 + l then 1
         else if d < 90 + l then 2
         else if d < 120 + l then 3
         else if d < 151 + l then 4
         else if d < 181 + l then 5
         else if d < 212 + l then 6
         else if d < 243 + l then 7
         else if d < 273 + l then 8
         else if d < 304 + l then 9
         else if d < 334 + l then 10
         else 11)"

definition DateFromTime :: "int \<Rightarrow> int" where
  "DateFromTime t =
     (let d = DayWithinYear t; l = InLeapYear t; m = MonthFromTime t
      in if m = 0 then d + 1
         else if m = 1 then d - 30
         else if m = 2 then d - 58 - l
         else if m = 3 then d - 89 - l
         else if m = 4 then d - 119 - l
         else if m = 5 then d - 150 - l
         else if m = 6 then d - 180 - l
         else if m = 7 then d - 211 - l
         else if m = 8 then d - 242 - l
         else if m = 9 then d - 272 - l
         else if m = 10 then d - 303 - l
         else d - 333 - l)"

definition HourFromTime :: "int \<Rightarrow> int" where
  "HourFromTime t = (t div 3600000) mod 24"

definition MinFromTime :: "int \<Rightarrow> int" where
  "MinFromTime t = (t div 60000) mod 60"

definition SecFromTime :: "int \<Rightarrow> int" where
  "SecFromTime t = (t div 1000) mod 60"

definition msFromTime :: "int \<Rightarrow> int" where
  "msFromTime t = t mod 1000"

text \<open>
  Decimal rendering in a fixed number of digits, zero-padded: \<open>digits w n\<close> are the last
  \<open>w\<close> decimal digits of \<open>n\<close>.
\<close>

definition digit :: "nat \<Rightarrow> char" where
  "digit n = char_of (48 + n mod 10)"

fun digits :: "nat \<Rightarrow> nat \<Rightarrow> string" where
  "digits 0 n = []"
| "digits (Suc w) n = digits w (n div 10) @ [digit n]"

text \<open>
  The year of the ISO format: four digits for the years 0 to 9999, and otherwise the
  expanded form, a sign and six digits (the time values of a \<^verbatim>\<open>Date\<close> lie within
  8.64e15 ms of the epoch, so a year has at most six digits).
\<close>

definition isoYear :: "int \<Rightarrow> string" where
  "isoYear y =
     (if 0 \<le> y \<and> y \<le> 9999 then digits 4 (nat y)
      else if y < 0 then CHR ''-'' # digits 6 (nat (- y))
      else CHR ''+'' # digits 6 (nat y))"

definition toISOString :: "int \<Rightarrow> string" where
  "toISOString t =
     isoYear (YearFromTime t) @ ''-'' @ digits 2 (nat (MonthFromTime t + 1)) @ ''-'' @
     digits 2 (nat (DateFromTime t)) @ ''T'' @ digits 2 (nat (HourFromTime t)) @ '':'' @
     digits 2 (nat (MinFromTime t)) @ '':'' @ digits 2 (nat (SecFromTime t)) @ ''.'' @
     digits 3 (nat (msFromTime t)) @ ''Z''"

section \<open>File names\<close>

text \<open>
  scraper, \<^verbatim>\<open>generateFilename\<close>:
  \<^verbatim>\<open>
  const path = urlObj.pathname.replace(/\//g, '_').replace(/[^a-zA-Z0-9_-]/g, '');
  const timestamp = new Date().toISOString().replace(/[:.]/g, '-');
  return `${path}_${timestamp}`;
  \<close>
  The instant of \<^verbatim>\<open>new Date()\<close> is the parameter \<open>now\<close>.
\<close>

definition isSafeChar :: "char \<Rightarrow> bool" where
  "isSafeChar c \<longleftrightarrow>
     (CHR ''a'' \<le> c \<and> c \<le> CHR ''z'') \<or> (CHR ''A'' \<le> c \<and> c \<le> CHR ''Z'') \<or>
     (CHR ''0'' \<le> c \<and> c \<le> CHR ''9'') \<or> c = CHR ''_'' \<or> c = CHR ''-''"

definition sanitizePath :: "string \<Rightarrow> string" where
  "sanitizePath p = filter isSafeChar (replace_char (CHR ''/'') (CHR ''_'') p)"

definition dashTimestamp :: "string \<Rightarrow> string" where
  "dashTimestamp s = map (\<lambda>c. if c = CHR '':'' \<or> c = CHR ''.'' then CHR ''-'' else c) s"

definition generateFilename :: "url_parser \<Rightarrow> int \<Rightarrow> string \<Rightarrow> error + string" where
  "generateFilename parseURL now u =
     (case parseURL u of
        None \<Rightarrow> Inl TypeError
      | Some urlObj \<Rightarrow>
          Inr (sanitizePath (pathname urlObj) @ ''_'' @ dashTimestamp (toISOString now)))"

text \<open>
  \<^verbatim>\<open>join(...)\<close> of path segments puts a separator between them (the segments here
  have no \<^verbatim>\<open>.\<close> or \<^verbatim>\<open>..\<close> parts to normalise).
\<close>

fun joinPath :: "string list \<Rightarrow> string" where
  "joinPath [] = ''.''"
| "joinPath [s] = s"
| "joinPath (s # ss) = s @ ''/'' @ joinPath ss"

text \<open>
  deconstructor, \<^verbatim>\<open>getLatestFile(dirPath, extension)\<close>: the listing of the directory
  is the parameter \<open>readdir\<close> (nothing when reading throws); \<^verbatim>\<open>sort()\<close> with no
  comparator orders strings by their code units.
\<close>

definition endsWith :: "string \<Rightarrow> string \<Rightarrow> bool" where
  "endsWith s suffix \<longleftrightarrow> suffix = drop (length s - length suffix) s"

definition getLatestFile :: "(string \<Rightarrow> string list option) \<Rightarrow> string \<Rightarrow> string \<Rightarrow> string option" where
  "getLatestFile readdir dirPath extension =
     (case readdir dirPath of
        None \<Rightarrow> None
      | Some files \<Rightarrow>
          (let matchingFiles = map (\<lambda>f. joinPath [dirPath, f]) (filter (\<lambda>f. endsWith f extension) files)
           in if length matchingFiles = 0 then None
              else Some (last (sort matchingFiles))))"

section \<open>The platform: calls, outcomes and traces\<close>

text \<open>
  The tools run in Node and drive a browser. Every call that leaves the program (file
  system, clock, random source, browser) is a \<open>call\<close>; a call completes, throws or
  never returns. The environment answers a call as a function of everything that
  happened before, the trace of calls and their outcomes, so any deterministic platform
  is an environment and a statement about all environments covers the random source and
  the network. \<^verbatim>\<open>console.log\<close> is left out: it has no effect on what follows.

  The scripts passed to \<^verbatim>\<open>page.evaluate\<close> run inside the page, not in the
  program: here they are calls (they return, throw when the page goes away, or never
  return), and the two scripts with loops are modelled on their own in the section on
  the in-page scripts.
\<close>

datatype waitUntil = networkidle | domcontentloaded

datatype call =
    Mkdir string
  | ReadClock
  | MathRandom
  | LoadManifest string
  | Launch
  | NewContext
  | AddInitScript
  | NewPage
  | SetExtraHTTPHeaders string
  | Goto string waitUntil nat
  | WaitForTimeout rat
  | WaitForLoadState nat
  | EvaluateRandomScroll
  | EvaluateLazyScroll
  | EvaluateWaitImages int
  | EvaluateScrollTop
  | IsVisible string
  | Click string nat
  | KeyboardPress string
  | Content
  | WriteFile string string
  | Screenshot string
  | ContextClose
  | BrowserClose
  | WaitForVisible string nat
  | ScrollIntoViewIfNeeded string
  | LocatorScreenshot string string

datatype 'a res = Ret 'a | Throw error | Hang

type_synonym trace = "(call \<times> unit res) list"

type_synonym 'a prog = "trace \<Rightarrow> 'a res \<times> trace"

record component =
  name :: string
  cssSelector :: "string option"

record manifest =
  components :: "component list option"

record env =
  newURL :: url_parser
  cwd :: string
  reply :: "trace \<Rightarrow> call \<Rightarrow> unit res"
  visible :: "trace \<Rightarrow> string \<Rightarrow> bool"
  html :: "trace \<Rightarrow> string"
  clock :: "trace \<Rightarrow> int"
  random :: "trace \<Rightarrow> rat"
  parsed :: "trace \<Rightarrow> manifest"

text \<open>Sequencing, as \<^verbatim>\<open>await\<close> does it: a throw or a hang ends what follows.\<close>

definition ret :: "'a \<Rightarrow> 'a prog" where
  "ret x h = (Ret x, h)"

definition throw :: "error \<Rightarrow> 'a prog" where
  "throw e h = (Throw e, h)"

definition seq :: "'a prog \<Rightarrow> ('a \<Rightarrow> 'b prog) \<Rightarrow> 'b prog" where
  "seq p f h =
     (case p h of
        (Ret x, h') \<Rightarrow> f x h'
      | (Throw e, h') \<Rightarrow> (Throw e, h')
      | (Hang, h') \<Rightarrow> (Hang, h'))"

text \<open>\<^verbatim>\<open>try { p } catch (e) { handler e }\<close>: a hang is not caught.\<close>

definition tryCatch :: "'a prog \<Rightarrow> (error \<Rightarrow> 'a prog) \<Rightarrow> 'a prog" where
  "tryCatch p handler h =
     (case p h of
        (Throw e, h') \<Rightarrow> handler e h'
      | (r, h') \<Rightarrow> (r, h'))"

text \<open>
  \<^verbatim>\<open>try { p } finally { f }\<close>: \<open>f\<close> runs when \<open>p\<close> returns or throws; what \<open>f\<close>
  throws replaces the outcome of \<open>p\<close>.
\<close>

definition tryFinally :: "'a prog \<Rightarrow> unit prog \<Rightarrow> 'a prog" where
  "tryFinally p f h =
     (case p h of
        (Hang, h') \<Rightarrow> (Hang, h')
      | (r, h') \<Rightarrow>
          (case f h' of
             (Ret _, h'') \<Rightarrow> (r, h'')
           | (Throw e, h'') \<Rightarrow> (Throw e, h'')
           | (Hang, h'') \<Rightarrow> (Hang, h'')))"

text \<open>A call whose value is not used, and calls that return a value.\<close>

definition perform :: "env \<Rightarrow> call \<Rightarrow> unit prog" where
  "perform E c h = (reply E h c, h @ [(c, reply E h c)])"

definition performWith :: "env \<Rightarrow> call \<Rightarrow> (trace \<Rightarrow> 'a) \<Rightarrow> 'a prog" where
  "performWith E c v h =
     (case reply E h c of
        Ret _ \<Rightarrow> (Ret (v h), h @ [(c, Ret ())])
      | Throw e \<Rightarrow> (Throw e, h @ [(c, Throw e)])
      | Hang \<Rightarrow> (Hang, h @ [(c, Hang)]))"

text \<open>The clock and the random source always answer.\<close>

definition readClock :: "env \<Rightarrow> int prog" where
  "readClock E h = (Ret (clock E h), h @ [(ReadClock, Ret ())])"

definition mathRandom :: "env \<Rightarrow> rat prog" where
  "mathRandom E h = (Ret (random E h), h @ [(MathRandom, Ret ())])"

definition liftE :: "error + 'a \<Rightarrow> 'a prog" where
  "liftE r = (case r of Inl e \<Rightarrow> throw e | Inr x \<Rightarrow> ret x)"

section \<open>scraper: preparing the page\<close>

text \<open>
  \<^verbatim>\<open>dismissModals\<close>. The selector list is the source's, in its order. For each
  selector the source runs
  \<^verbatim>\<open>
  try {
    const element = page.locator(selector).first();
    if (await element.isVisible({ timeout: 1000 })) {
      await element.click({ timeout: 2000 });
      dismissed++;
      await page.waitForTimeout(1000);
    }
  } catch (error) { }
  \<close>
  The counter is incremented before the settle wait, so it keeps the increment when that
  wait throws. The function returns nothing and prints the counter; the model returns
  the counter's final value, which decides between the messages
  \<^verbatim>\<open>Dismissed n modal(s)/popup(s)\<close> (\<open>n > 0\<close>) and \<^verbatim>\<open>No modals detected\<close>.
\<close>

definition dismissSelectors :: "string list" where
  \<open>dismissSelectors =
     [''[class*="close"]'',
      ''[class*="Close"]'',
      ''[id*="close"]'',
      ''[aria-label*="close" i]'',
      ''[aria-label*="dismiss" i]'',
      ''button[title*="close" i]'',
      ''.modal-close'',
      ''.popup-close'',
      ''button:has-text("Accept")'',
      ''button:has-text("I Accept")'',
      ''button:has-text("I Agree")'',
      ''button:has-text("Accept All")'',
      ''button:has-text("Agree")'',
      ''button:has-text("OK")'',
      ''button:has-text("Got it")'',
      ''button:has-text("Continue")'',
      ''a:has-text("Accept")'',
      ''[id*="accept"]'',
      ''[class*="accept"]'',
      ''#onetrust-accept-btn-handler'',
      ''.cookie-consent-accept'',
      ''#cookie-consent-accept'',
      ''[aria-label*="accept cookie" i]'',
      ''button:has-text("No thanks")'',
      ''button:has-text("No Thanks")'',
      ''button:has-text("Skip")'',
      ''button:has-text("Maybe Later")'',
      ''button:has-text("Not now")'',
      ''[role="dialog"] button[aria-label*="close" i]'',
      ''[role="dialog"] [class*="close"]'',
      ''.modal button[class*="close"]'',
      ''[aria-label*="Close dialog" i]'',
      ''[aria-label*="Close popup" i]'',
      ''button.klaviyo-close-form'']\<close>

definition dismissOne :: "env \<Rightarrow> string \<Rightarrow> nat \<Rightarrow> nat prog" where
  "dismissOne E selector dismissed =
     tryCatch
       (seq (performWith E (IsVisible selector) (\<lambda>h. visible E h selector)) (\<lambda>isVisible.
          if isVisible then
            seq (perform E (Click selector 2000)) (\<lambda>_.
            tryCatch
              (seq (perform E (WaitForTimeout 1000)) (\<lambda>_. ret (dismissed + 1)))
              (\<lambda>error. ret (dismissed + 1)))
          else ret dismissed))
       (\<lambda>error. ret dismissed)"

fun dismissLoop :: "env \<Rightarrow> string list \<Rightarrow> nat \<Rightarrow> nat prog" where
  "dismissLoop E [] dismissed = ret dismissed"
| "dismissLoop E (selector # rest) dismissed =
     seq (dismissOne E selector dismissed) (\<lambda>dismissed'. dismissLoop E rest dismissed')"

text \<open>
  \<^verbatim>\<open>
  try {
    await page.keyboard.press('Escape');
    await page.waitForTimeout(500);
    dismissed++;
  } catch (error) { }
  \<close>
\<close>

definition pressEscape :: "env \<Rightarrow> nat \<Rightarrow> nat prog" where
  "pressEscape E dismissed =
     tryCatch
       (seq (perform E (KeyboardPress ''Escape'')) (\<lambda>_.
        seq (perform E (WaitForTimeout 500)) (\<lambda>_.
        ret (dismissed + 1))))
       (\<lambda>error. ret dismissed)"

definition dismissModals :: "env \<Rightarrow> nat prog" where
  "dismissModals E =
     seq (perform E (WaitForTimeout 2000)) (\<lambda>_.
     seq (dismissLoop E dismissSelectors 0) (\<lambda>dismissed.
     pressEscape E dismissed))"

definition triggerLazyLoadedImages :: "env \<Rightarrow> unit prog" where
  "triggerLazyLoadedImages E = perform E EvaluateLazyScroll"

definition waitForImages :: "env \<Rightarrow> int \<Rightarrow> unit prog" where
  "waitForImages E timeoutMs =
     tryCatch (perform E (EvaluateWaitImages timeoutMs)) (\<lambda>error. ret ())"

definition preparePageForScreenshot :: "env \<Rightarrow> unit prog" where
  "preparePageForScreenshot E =
     seq (dismissModals E) (\<lambda>_.
     seq (triggerLazyLoadedImages E) (\<lambda>_.
     waitForImages E 15000))"

section \<open>scraper: sessions and navigation\<close>

definition createStealthBrowser :: "env \<Rightarrow> unit prog" where
  "createStealthBrowser E = perform E Launch"

text \<open>
  \<^verbatim>\<open>createStealthContext\<close>: the options of the context are constants but for the
  user agent, drawn by \<^verbatim>\<open>getRealisticUserAgent\<close> from four with
  \<^verbatim>\<open>Math.random()\<close>; then the init script is added.
\<close>

definition createStealthContext :: "env \<Rightarrow> unit prog" where
  "createStealthContext E =
     seq (mathRandom E) (\<lambda>_.
     seq (perform E NewContext) (\<lambda>_.
     perform E AddInitScript))"

text \<open>
  The navigation block, written out twice in the sources, in \<^verbatim>\<open>scrapeUrl\<close> and in
  \<^verbatim>\<open>crop\<close>:
  \<^verbatim>\<open>
  try {
    await page.goto(url, { waitUntil: 'networkidle', timeout: 15000 });
  } catch (error) {
    await page.goto(url, { waitUntil: 'domcontentloaded', timeout: 30000 });
    await page.waitForTimeout(grace);
  }
  \<close>
  with \<^verbatim>\<open>grace\<close> 5000 in \<^verbatim>\<open>scrapeUrl\<close> and 3000 in \<^verbatim>\<open>crop\<close>.
\<close>

definition navigate :: "env \<Rightarrow> string \<Rightarrow> rat \<Rightarrow> unit prog" where
  "navigate E u grace =
     tryCatch
       (perform E (Goto u networkidle 15000))
       (\<lambda>error.
          seq (perform E (Goto u domcontentloaded 30000)) (\<lambda>_.
          perform E (WaitForTimeout grace)))"

text \<open>\<^verbatim>\<open>page.waitForLoadState('load', { timeout: 10000 }).catch(() => { ... })\<close>\<close>

definition waitForLoad :: "env \<Rightarrow> unit prog" where
  "waitForLoad E = tryCatch (perform E (WaitForLoadState 10000)) (\<lambda>error. ret ())"

section \<open>scraper: capturing one URL, and several\<close>

record ScrapeResult =
  url :: string
  htmlPath :: string
  screenshotPath :: string
  timestamp :: string

definition ensureOutputDirectories :: "env \<Rightarrow> string \<Rightarrow> unit prog" where
  "ensureOutputDirectories E domain =
     seq (perform E (Mkdir (joinPath [cwd E, ''output'', domain, ''html'']))) (\<lambda>_.
     perform E (Mkdir (joinPath [cwd E, ''output'', domain, ''screenshots''])))"

text \<open>\<^verbatim>\<open>generateFilename\<close> in the program: the URL is parsed, then the clock is read.\<close>

definition generateFilenameNow :: "env \<Rightarrow> string \<Rightarrow> string prog" where
  "generateFilenameNow E u =
     (case newURL E u of
        None \<Rightarrow> throw TypeError
      | Some _ \<Rightarrow> seq (readClock E) (\<lambda>now. liftE (generateFilename (newURL E) now u)))"

definition originOf :: "env \<Rightarrow> string \<Rightarrow> string prog" where
  "originOf E u = (case newURL E u of None \<Rightarrow> throw TypeError | Some urlObj \<Rightarrow> ret (origin urlObj))"

text \<open>The body of the \<^verbatim>\<open>try\<close> of \<^verbatim>\<open>scrapeUrl\<close>.\<close>

definition scrapeBody :: "env \<Rightarrow> string \<Rightarrow> string \<Rightarrow> ScrapeResult prog" where
  "scrapeBody E u domainFolder =
     seq (createStealthContext E) (\<lambda>_.
     seq (perform E NewPage) (\<lambda>_.
     seq (originOf E u) (\<lambda>referer.
     seq (perform E (SetExtraHTTPHeaders referer)) (\<lambda>_.
     seq (navigate E u 5000) (\<lambda>_.
     seq (waitForLoad E) (\<lambda>_.
     seq (perform E EvaluateRandomScroll) (\<lambda>_.
     seq (mathRandom E) (\<lambda>r.
     seq (perform E (WaitForTimeout (3000 + r * 2000))) (\<lambda>_.
     seq (preparePageForScreenshot E) (\<lambda>_.
     seq (perform E EvaluateScrollTop) (\<lambda>_.
     seq (perform E (WaitForTimeout 1000)) (\<lambda>_.
     seq (generateFilenameNow E u) (\<lambda>filename.
     seq (performWith E Content (html E)) (\<lambda>content.
     seq (perform E (WriteFile
            (joinPath [cwd E, ''output'', domainFolder, ''html'', filename @ ''.html''])
            content)) (\<lambda>_.
     seq (perform E (Screenshot
            (joinPath [cwd E, ''output'', domainFolder, ''screenshots'', filename @ ''.png'']))) (\<lambda>_.
     seq (perform E ContextClose) (\<lambda>_.
     seq (readClock E) (\<lambda>endTime.
     seq (readClock E) (\<lambda>now.
     ret \<lparr>url = u,
          htmlPath = joinPath [cwd E, ''output'', domainFolder, ''html'', filename @ ''.html''],
          screenshotPath =
            joinPath [cwd E, ''output'', domainFolder, ''screenshots'', filename @ ''.png''],
          timestamp = toISOString now\<rparr>)))))))))))))))))))"

text \<open>
  \<^verbatim>\<open>scrapeUrl\<close>: the folder, the directories, the start time and the launch come
  before the \<^verbatim>\<open>try\<close>; its \<^verbatim>\<open>catch\<close> prints and rethrows; its
  \<^verbatim>\<open>finally\<close> closes the browser.
\<close>

definition scrapeUrl :: "env \<Rightarrow> string \<Rightarrow> ScrapeResult prog" where
  "scrapeUrl E u =
     seq (liftE (getDomainFolder (newURL E) u)) (\<lambda>domainFolder.
     seq (ensureOutputDirectories E domainFolder) (\<lambda>_.
     seq (readClock E) (\<lambda>startTime.
     seq (createStealthBrowser E) (\<lambda>_.
     tryFinally
       (tryCatch (scrapeBody E u domainFolder) (\<lambda>error. throw error))
       (perform E BrowserClose)))))"

text \<open>
  \<^verbatim>\<open>scrapeUrls\<close>:
  \<^verbatim>\<open>
  for (const url of urls) {
    try { const result = await scrapeUrl(url); results.push(result); }
    catch (error) { console.error(...); throw error; }
  }
  return results;
  \<close>
\<close>

fun scrapeLoop :: "env \<Rightarrow> string list \<Rightarrow> ScrapeResult list \<Rightarrow> ScrapeResult list prog" where
  "scrapeLoop E [] results = ret results"
| "scrapeLoop E (u # us) results =
     seq (tryCatch (scrapeUrl E u) (\<lambda>error. throw error)) (\<lambda>result.
     scrapeLoop E us (results @ [result]))"

definition scrapeUrls :: "env \<Rightarrow> string list \<Rightarrow> ScrapeResult list prog" where
  "scrapeUrls E urls = scrapeLoop E urls []"

section \<open>cropper\<close>

definition loadManifest :: "env \<Rightarrow> string \<Rightarrow> manifest prog" where
  "loadManifest E subfolder =
     performWith E
       (LoadManifest (joinPath [cwd E, ''output'', subfolder, ''analysis'', ''manifest.json'']))
       (parsed E)"

text \<open>
  One round of the loop over the components. \<^verbatim>\<open>if (!selector) continue\<close> skips a
  component with no selector or an empty one.
\<close>

definition cropOne :: "env \<Rightarrow> string \<Rightarrow> component \<Rightarrow> unit prog" where
  "cropOne E analysisDir c =
     (case cssSelector c of
        None \<Rightarrow> ret ()
      | Some selector \<Rightarrow>
          if selector = [] then ret ()
          else
            tryCatch
              (seq (perform E (WaitForVisible selector 5000)) (\<lambda>_.
               seq (perform E (ScrollIntoViewIfNeeded selector)) (\<lambda>_.
               seq (perform E (WaitForTimeout 500)) (\<lambda>_.
               perform E (LocatorScreenshot selector (joinPath [analysisDir, name c @ ''.png'']))))))
              (\<lambda>err. ret ()))"

fun cropLoop :: "env \<Rightarrow> string \<Rightarrow> component list \<Rightarrow> unit prog" where
  "cropLoop E analysisDir [] = ret ()"
| "cropLoop E analysisDir (c # cs) = seq (cropOne E analysisDir c) (\<lambda>_. cropLoop E analysisDir cs)"

text \<open>The body of the \<^verbatim>\<open>try\<close> of \<^verbatim>\<open>crop\<close>.\<close>

definition cropBody :: "env \<Rightarrow> string \<Rightarrow> string \<Rightarrow> component list \<Rightarrow> unit prog" where
  "cropBody E u analysisDir cs =
     seq (perform E NewPage) (\<lambda>_.
     seq (navigate E u 3000) (\<lambda>_.
     seq (waitForLoad E) (\<lambda>_.
     seq (preparePageForScreenshot E) (\<lambda>_.
     cropLoop E analysisDir cs))))"

text \<open>
  \<^verbatim>\<open>crop\<close>: the browser and the context are created before the \<^verbatim>\<open>try\<close>, whose
  \<^verbatim>\<open>finally\<close> closes the browser.
\<close>

definition crop :: "env \<Rightarrow> string \<Rightarrow> unit prog" where
  "crop E subfolder =
     seq (loadManifest E subfolder) (\<lambda>manifest.
       let cs = (case components manifest of None \<Rightarrow> [] | Some l \<Rightarrow> l)
       in if length cs = 0 then ret ()
          else
            seq (perform E (Mkdir (joinPath [cwd E, ''output'', subfolder, ''analysis'']))) (\<lambda>_.
            seq (createStealthBrowser E) (\<lambda>_.
            seq (createStealthContext E) (\<lambda>_.
            tryFinally
              (cropBody E (''https://'' @ subfolderToHostname subfolder)
                 (joinPath [cwd E, ''output'', subfolder, ''analysis'']) cs)
              (perform E BrowserClose)))))"

section \<open>The in-page scripts\<close>

text \<open>
  The script of \<^verbatim>\<open>triggerLazyLoadedImages\<close>:
  \<^verbatim>\<open>
  let scrollHeight = getScrollHeight();
  let currentPosition = 0;
  const scrollStep = 500;
  while (currentPosition < scrollHeight) {
    window.scrollTo(0, currentPosition);
    currentPosition += scrollStep;
    await new Promise(resolve => setTimeout(resolve, 100));
    scrollHeight = getScrollHeight();
  }
  window.scrollTo(0, scrollHeight);
  \<close>
  The page is the function \<open>getScrollHeight\<close>: its value at \<open>k\<close> is what the
  \<open>k\<close>-th reading of the document's scroll height returns (the script scrolls to the
  same positions on every page, so this is any page). Heights and positions are whole
  numbers of pixels. The loop may run forever: it is a partial function, and the script
  yields the positions it scrolled to, or nothing when it never finishes.
\<close>

partial_function (option) scrollLoop ::
  "(nat \<Rightarrow> int) \<Rightarrow> nat \<Rightarrow> int \<Rightarrow> int \<Rightarrow> int list \<Rightarrow> (int \<times> int list) option" where
  "scrollLoop getScrollHeight k currentPosition scrollHeight scrolled =
     (if currentPosition < scrollHeight
      then scrollLoop getScrollHeight (k + 1) (currentPosition + 500) (getScrollHeight (k + 1))
             (scrolled @ [currentPosition])
      else Some (scrollHeight, scrolled))"

declare scrollLoop.simps [code]

definition lazyScrollScript :: "(nat \<Rightarrow> int) \<Rightarrow> int list option" where
  "lazyScrollScript getScrollHeight =
     (case scrollLoop getScrollHeight 0 0 (getScrollHeight 0) [] of
        None \<Rightarrow> None
      | Some (scrollHeight, scrolled) \<Rightarrow> Some (scrolled @ [scrollHeight]))"

text \<open>
  The script of \<^verbatim>\<open>waitForImages\<close>:
  \<^verbatim>\<open>
  const startTime = Date.now();
  const checkImages = () => {
    const visibleImages = images.filter(img => style.display !== 'none' &&
        style.visibility !== 'hidden' && style.opacity !== '0' &&
        (rect.width > 0 || rect.height > 0));
    if (visibleImages.length === 0) { resolve(); return; }
    const allLoaded = visibleImages.every(img => img.complete && img.naturalHeight > 0);
    if (allLoaded || Date.now() - startTime > timeout) { resolve(); }
    else { setTimeout(checkImages, 200); }
  };
  checkImages();
  \<close>
  The page gives the images found by the \<open>k\<close>-th poll and the clock's reading at that
  poll. The promise is only ever resolved; \<open>checkImages\<close> yields the number of the poll
  that resolves it (polls are counted from 0), or nothing when no poll does.
\<close>

record img =
  display :: string
  visibility :: string
  opacity :: string
  width :: rat
  height :: rat
  complete :: bool
  naturalHeight :: nat

record page =
  images :: "nat \<Rightarrow> img list"
  startTime :: int
  pollTime :: "nat \<Rightarrow> int"

definition isVisibleImage :: "img \<Rightarrow> bool" where
  "isVisibleImage i \<longleftrightarrow>
     display i \<noteq> ''none'' \<and> visibility i \<noteq> ''hidden'' \<and> opacity i \<noteq> ''0'' \<and>
     (width i > 0 \<or> height i > 0)"

definition isLoaded :: "img \<Rightarrow> bool" where
  "isLoaded i \<longleftrightarrow> complete i \<and> naturalHeight i > 0"

partial_function (option) checkImages :: "page \<Rightarrow> int \<Rightarrow> nat \<Rightarrow> nat option" where
  "checkImages P timeout k =
     (let visibleImages = filter isVisibleImage (images P k)
      in if length visibleImages = 0 then Some k
         else if list_all isLoaded visibleImages \<or> pollTime P k - startTime P > timeout
         then Some k
         else checkImages P timeout (k + 1))"

declare checkImages.simps [code]

text \<open>
  Ideal timers: the first poll runs at the start time, and \<^verbatim>\<open>setTimeout(f, 200)\<close>
  runs \<open>f\<close> 200 ms later.
\<close>

definition idealTimers :: "page \<Rightarrow> bool" where
  "idealTimers P \<longleftrightarrow> pollTime P 0 = startTime P \<and> (\<forall>k. pollTime P (Suc k) = pollTime P k + 200)"

text \<open>
  Timers as the platform promises them, never early: the first poll does not read the
  clock before the start, and \<^verbatim>\<open>setTimeout(f, 200)\<close> runs \<open>f\<close> 200 ms later or more.
  Timers that are at most \<open>l\<close> ms late: the first poll reads the clock at most \<open>l\<close> ms
  after the start, and \<^verbatim>\<open>setTimeout(f, 200)\<close> runs \<open>f\<close> at most \<open>200 + l\<close> ms later.
  Ideal timers are never early and late by 0.
\<close>

definition neverEarly :: "page \<Rightarrow> bool" where
  "neverEarly P \<longleftrightarrow> startTime P \<le> pollTime P 0 \<and> (\<forall>k. pollTime P k + 200 \<le> pollTime P (Suc k))"

definition lateBy :: "page \<Rightarrow> int \<Rightarrow> bool" where
  "lateBy P l \<longleftrightarrow> pollTime P 0 \<le> startTime P + l \<and> (\<forall>k. pollTime P (Suc k) \<le> pollTime P k + 200 + l)"

section \<open>Sample inputs\<close>

text \<open>A URL parser that knows two URLs, for the instances below.\<close>

definition sampleParser :: url_parser where
  "sampleParser u =
     (if u = ''https://www.spacenk.com''
      then Some \<lparr>hostname = ''www.spacenk.com'', pathname = ''/'',
                 origin = ''https://www.spacenk.com''\<rparr>
      else if u = ''https://my-shop.example.com/new/items.html''
      then Some \<lparr>hostname = ''my-shop.example.com'', pathname = ''/new/items.html'',
                 origin = ''https://my-shop.example.com''\<rparr>
      else None)"

section \<open>Notions used in the statements\<close>

text \<open>Reading a trace.\<close>

fun isGoto :: "call \<Rightarrow> bool" where
  "isGoto (Goto u w t) = True"
| "isGoto c = False"

definition noGoto :: "trace \<Rightarrow> bool" where
  "noGoto t = list_all (\<lambda>ev. \<not> isGoto (fst ev)) t"

fun isRet :: "'a res \<Rightarrow> bool" where
  "isRet (Ret x) = True"
| "isRet r = False"

fun isThrow :: "'a res \<Rightarrow> bool" where
  "isThrow (Throw e) = True"
| "isThrow r = False"

text \<open>
  How an operation ends when both navigation attempts threw, the second one \<open>e\<close>:
  inside the \<^verbatim>\<open>try\<close> nothing more happens and \<open>e\<close> is thrown; for the whole
  operation the browser is closed, and \<open>e\<close> is thrown unless closing throws or hangs.
\<close>

fun abortedIn :: "error \<Rightarrow> trace \<Rightarrow> 'a res \<Rightarrow> bool" where
  "abortedIn e [] r = (r = Throw e)"
| "abortedIn e (ev # t) r = False"

fun abortedOut :: "error \<Rightarrow> trace \<Rightarrow> 'a res \<Rightarrow> bool" where
  "abortedOut e [(c, Ret x)] r = (c = BrowserClose \<and> r = Throw e)"
| "abortedOut e [(c, Throw e')] r = (c = BrowserClose \<and> r = Throw e')"
| "abortedOut e [(c, Hang)] r = (c = BrowserClose \<and> r = Hang)"
| "abortedOut e t r = False"

text \<open>
  A trace has returned when all its calls did.
\<close>

definition returned :: "trace \<Rightarrow> bool" where
  "returned t = list_all (\<lambda>ev. snd ev = Ret ()) t"

text \<open>
  The traces a navigation leaves, for a URL \<open>u\<close> and a grace wait \<open>g\<close>, given what
  follows it in the trace (\<open>post\<close>) and the outcome \<open>r\<close> of the operation; \<open>aborted\<close>
  says how the operation ends when both attempts threw. A navigation is never empty:
  it starts with the network-idle attempt. The cases: the network-idle attempt alone,
  which did not throw; the network-idle attempt, which threw, then the DOM-parsed
  attempt, which hung or threw; both attempts, the second completed, then the grace
  wait.
\<close>

fun navTrace ::
  "(error \<Rightarrow> trace \<Rightarrow> 'a res \<Rightarrow> bool) \<Rightarrow> string \<Rightarrow> rat \<Rightarrow> trace \<Rightarrow> trace \<Rightarrow> 'a res \<Rightarrow> bool" where
  "navTrace aborted u g [] post r = False"
| "navTrace aborted u g [(c1, o1)] post r = (c1 = Goto u networkidle 15000 \<and> \<not> isThrow o1)"
| "navTrace aborted u g [(c1, o1), (c2, Ret x)] post r = False"
| "navTrace aborted u g [(c1, o1), (c2, Hang)] post r =
     (c1 = Goto u networkidle 15000 \<and> isThrow o1 \<and>
      c2 = Goto u domcontentloaded 30000 \<and> post = [] \<and> r = Hang)"
| "navTrace aborted u g [(c1, o1), (c2, Throw e)] post r =
     (c1 = Goto u networkidle 15000 \<and> isThrow o1 \<and>
      c2 = Goto u domcontentloaded 30000 \<and> aborted e post r)"
| "navTrace aborted u g [(c1, o1), (c2, o2), (c3, o3)] post r =
     (c1 = Goto u networkidle 15000 \<and> isThrow o1 \<and>
      c2 = Goto u domcontentloaded 30000 \<and> o2 = Ret () \<and>
      c3 = WaitForTimeout g)"
| "navTrace aborted u g (e1 # e2 # e3 # e4 # t) post r = False"

text \<open>
  A program that navigates once: its trace is a part without navigation, then the
  navigation, then a part without navigation. The navigation is there when every call
  before it returned; when one of them did not, there is no navigation and the program
  does not return.
\<close>

definition shaped ::
  "(error \<Rightarrow> trace \<Rightarrow> 'a res \<Rightarrow> bool) \<Rightarrow> string \<Rightarrow> rat \<Rightarrow> 'a prog \<Rightarrow> bool" where
  "shaped aborted u g p \<longleftrightarrow>
     (\<forall>h. \<exists>pre nav post. snd (p h) = h @ pre @ nav @ post \<and> noGoto pre \<and> noGoto post \<and>
        (if returned pre then navTrace aborted u g nav post (fst (p h))
         else nav = [] \<and> \<not> isRet (fst (p h))))"

text \<open>
  A program none of whose calls is a navigation, and which returns exactly when all its
  calls did.
\<close>

definition strict :: "'a prog \<Rightarrow> bool" where
  "strict p \<longleftrightarrow> (\<forall>h. \<exists>t. snd (p h) = h @ t \<and> noGoto t \<and> (isRet (fst (p h)) \<longleftrightarrow> returned t))"

text \<open>The components of a manifest, \<^verbatim>\<open>manifest.components ?? []\<close>.\<close>

definition componentsOf :: "manifest \<Rightarrow> component list" where
  "componentsOf m = (case components m of None \<Rightarrow> [] | Some l \<Rightarrow> l)"


text \<open>A program whose calls all satisfy \<open>Q\<close>; it only ever appends to the trace.\<close>

definition emits :: "(call \<Rightarrow> bool) \<Rightarrow> 'a prog \<Rightarrow> bool" where
  "emits Q p \<longleftrightarrow> (\<forall>h. \<exists>t. snd (p h) = h @ t \<and> list_all (\<lambda>ev. Q (fst ev)) t)"

text \<open>The poll of \<open>checkImages\<close> numbered \<open>k\<close> resolves the promise.\<close>

definition resolvesAt :: "page \<Rightarrow> int \<Rightarrow> nat \<Rightarrow> bool" where
  "resolvesAt P timeout k \<longleftrightarrow>
     filter isVisibleImage (images P k) = [] \<or>
     list_all isLoaded (filter isVisibleImage (images P k)) \<or>
     pollTime P k - startTime P > timeout"

text \<open>Sample pages and platforms for the instances.\<close>

definition brokenImage :: img where
  "brokenImage = \<lparr>display = ''inline'', visibility = ''visible'', opacity = ''1'',
       width = 24, height = 24, complete = True, naturalHeight = 0\<rparr>"

definition brokenImagePage :: page where
  "brokenImagePage = \<lparr>images = (\<lambda>k. [brokenImage]), startTime = 1772020800000,
       pollTime = (\<lambda>k. 1772020800000 + 200 * int k)\<rparr>"

definition noImagePage :: page where
  "noImagePage = \<lparr>images = (\<lambda>k. [brokenImage\<lparr>display := ''none''\<rparr>]), startTime = 1772020800000,
       pollTime = (\<lambda>k. 1772020800000 + 200 * int k)\<rparr>"

text \<open>
  Pages with an image that never loads: one on which the timers are 1 ms late from the
  seventh poll on, and one on which the clock stands still.
\<close>

definition latePage :: page where
  "latePage = \<lparr>images = (\<lambda>k. [brokenImage]), startTime = 1772020800000,
       pollTime = (\<lambda>k. 1772020800000 + 200 * int k + (if k < 6 then 0 else 1))\<rparr>"

definition frozenPage :: page where
  "frozenPage = \<lparr>images = (\<lambda>k. [brokenImage]), startTime = 1772020800000,
       pollTime = (\<lambda>k. 1772020800000)\<rparr>"

definition twoComponents :: manifest where
  "twoComponents = \<lparr>components = Some [\<lparr>name = ''A'', cssSelector = Some ''.missing''\<rparr>,
       \<lparr>name = ''B'', cssSelector = Some ''body''\<rparr>]\<rparr>"

text \<open>
  A platform on which every call completes, no candidate of \<open>dismissSelectors\<close> is
  visible, and the clock advances by a millisecond with every call.
\<close>

definition quietEnv :: env where
  "quietEnv = \<lparr>newURL = sampleParser, cwd = ''/work'', reply = (\<lambda>h c. Ret ()),
      visible = (\<lambda>h s. False), html = (\<lambda>h. ''<html></html>''),
      clock = (\<lambda>h. 1772020800000 + int (length h)),
      random = (\<lambda>h. 1 / 2), parsed = (\<lambda>h. twoComponents)\<rparr>"










definition busyEnv :: env where
  "busyEnv = quietEnv\<lparr>reply := (\<lambda>h c.
      (case c of
         Goto u networkidle t \<Rightarrow> Throw (Error ''Timeout 15000ms exceeded'')
       | _ \<Rightarrow> Ret ()))\<rparr>"

definition offlineEnv :: env where
  "offlineEnv = quietEnv\<lparr>reply := (\<lambda>h c.
      (case c of
         Goto u w t \<Rightarrow> Throw (Error ''net::ERR_INTERNET_DISCONNECTED'')
       | _ \<Rightarrow> Ret ()))\<rparr>"

definition noContextEnv :: env where
  "noContextEnv = quietEnv\<lparr>reply := (\<lambda>h c.
      if c = NewContext then Throw (Error ''Target closed'') else Ret ())\<rparr>"

text \<open>The calls made on an open page: no navigation, no launch, no closing of the browser.\<close>

definition pageCall :: "call \<Rightarrow> bool" where
  "pageCall c \<longleftrightarrow> \<not> isGoto c \<and> c \<noteq> Launch \<and> c \<noteq> BrowserClose"

text \<open>Decimal digits, and the rendering of the time of day shared by all years.\<close>

definition isDigitChar :: "char \<Rightarrow> bool" where
  "isDigitChar c \<longleftrightarrow> CHR ''0'' \<le> c \<and> c \<le> CHR ''9''"

definition timeOfDay :: "int \<Rightarrow> string" where
  "timeOfDay t = digits 2 (nat (HourFromTime t)) @ ''-'' @
     digits 2 (nat (MinFromTime t)) @ ''-'' @ digits 2 (nat (SecFromTime t)) @ ''-'' @
     digits 3 (nat (msFromTime t)) @ ''Z''"

text \<open>The name \<open>generateFilename\<close> gives at the instant \<open>t\<close> for a parsed URL.\<close>

definition stampedName :: "URL \<Rightarrow> int \<Rightarrow> string" where
  "stampedName urlObj t = sanitizePath (pathname urlObj) @ ''_'' @ dashTimestamp (toISOString t)"

section \<open>Round trip of the folder encoding\<close>

lemma replace_char_back:
  "c \<notin> set s \<Longrightarrow> replace_char c d (replace_char d c s) = s"
  by (induction s) (auto simp: replace_char_def)

lemma replace_char_removes:
  "c \<noteq> d \<Longrightarrow> c \<notin> set (replace_char c d s)"
  by (induction s) (auto simp: replace_char_def)

text \<open>
  C9: the folder encoding is inverted by \<open>subfolderToHostname\<close> exactly on the host
  names without a hyphen: for such a host name the round trip gives the host name back,
  and for a host name with a hyphen it gives a different one.
\<close>

theorem C9_folder_roundtrip:
  assumes "parseURL u = Some urlObj"
  shows "\<exists>folder. getDomainFolder parseURL u = Inr folder \<and>
           (CHR ''-'' \<notin> set (hostname urlObj) \<longrightarrow> subfolderToHostname folder = hostname urlObj) \<and>
           (CHR ''-'' \<in> set (hostname urlObj) \<longrightarrow> subfolderToHostname folder \<noteq> hostname urlObj)"
proof -
  let ?f = "replace_char (CHR ''.'') (CHR ''-'') (hostname urlObj)"
  have f: "getDomainFolder parseURL u = Inr ?f"
    using assms by (simp add: getDomainFolder_def)
  have same: "CHR ''-'' \<notin> set (hostname urlObj) \<Longrightarrow> subfolderToHostname ?f = hostname urlObj"
    by (simp add: subfolderToHostname_def replace_char_back)
  have "CHR ''-'' \<notin> set (subfolderToHostname ?f)"
    by (simp add: subfolderToHostname_def replace_char_removes)
  then have diff: "CHR ''-'' \<in> set (hostname urlObj) \<Longrightarrow> subfolderToHostname ?f \<noteq> hostname urlObj"
    by metis
  from f same diff show ?thesis by blast
qed


theorem C9_folder_roundtrip_witness:
  "sampleParser ''https://www.spacenk.com'' =
     Some \<lparr>hostname = ''www.spacenk.com'', pathname = ''/'', origin = ''https://www.spacenk.com''\<rparr> \<and>
   getDomainFolder sampleParser ''https://www.spacenk.com'' = Inr ''www-spacenk-com'' \<and>
   subfolderToHostname ''www-spacenk-com'' = ''www.spacenk.com'' \<and>
   getDomainFolder sampleParser ''https://my-shop.example.com/new/items.html'' =
     Inr ''my-shop-example-com'' \<and>
   subfolderToHostname ''my-shop-example-com'' = ''my.shop.example.com'' \<and>
   subfolderToHostname ''my-shop-example-com'' \<noteq> ''my-shop.example.com''"
  using C9_folder_roundtrip [of sampleParser "''https://www.spacenk.com''"
      "\<lparr>hostname = ''www.spacenk.com'', pathname = ''/'', origin = ''https://www.spacenk.com''\<rparr>"]
    C9_folder_roundtrip [of sampleParser "''https://my-shop.example.com/new/items.html''"
      "\<lparr>hostname = ''my-shop.example.com'', pathname = ''/new/items.html'',
        origin = ''https://my-shop.example.com''\<rparr>"]
  by (simp add: sampleParser_def getDomainFolder_def subfolderToHostname_def replace_char_def)


section \<open>The lazy-load sweep\<close>

text \<open>
  At its \<open>k\<close>-th test the loop compares the position \<open>500 * k\<close> with the \<open>k\<close>-th reading
  of the height. A run that ends has reached a test where the height is at most the
  position, and a test of this kind ends the run.
\<close>

lemma scrollLoop_Some_reaches:
  assumes "scrollLoop g k c s acc = Some r"
  shows "s = g k \<longrightarrow> (\<exists>j. g (k + j) \<le> c + 500 * int j)"
proof (rule scrollLoop.raw_induct[where P = "\<lambda>g k c s acc (r::int \<times> int list).
          s = g k \<longrightarrow> (\<exists>j. g (k + j) \<le> c + 500 * int j)", OF _ assms])
  fix loop g k c s acc and r :: "int \<times> int list"
  assume IH: "\<And>g k c s acc r. loop g k c s acc = Some r \<Longrightarrow>
                 s = g k \<longrightarrow> (\<exists>j. g (k + j) \<le> c + 500 * int j)"
    and step: "(if c < s then loop g (k + 1) (c + 500) (g (k + 1)) (acc @ [c])
                else Some (s, acc)) = Some r"
  show "s = g k \<longrightarrow> (\<exists>j. g (k + j) \<le> c + 500 * int j)"
  proof (cases "c < s")
    case True
    with step have "loop g (k + 1) (c + 500) (g (k + 1)) (acc @ [c]) = Some r" by simp
    from IH[OF this] obtain j where "g (k + 1 + j) \<le> c + 500 + 500 * int j" by auto
    then have "g (k + Suc j) \<le> c + 500 * int (Suc j)" by (simp add: algebra_simps)
    then show ?thesis by blast
  next
    case False
    then have "s = g k \<longrightarrow> g (k + 0) \<le> c + 500 * int 0" by simp
    then show ?thesis by blast
  qed
qed

lemma scrollLoop_reaches_Some:
  "g (k + j) \<le> c + 500 * int j \<Longrightarrow> \<exists>r. scrollLoop g k c (g k) acc = Some r"
proof (induction j arbitrary: k c acc)
  case 0
  then show ?case by (subst scrollLoop.simps) simp
next
  case (Suc j)
  show ?case
  proof (cases "c < g k")
    case True
    from Suc.prems have "g (k + 1 + j) \<le> (c + 500) + 500 * int j" by (simp add: algebra_simps)
    from Suc.IH[OF this]
    obtain r where "scrollLoop g (k + 1) (c + 500) (g (k + 1)) (acc @ [c]) = Some r"
      by blast
    with True show ?thesis by (subst scrollLoop.simps) simp
  next
    case False
    then show ?thesis by (subst scrollLoop.simps) simp
  qed
qed

lemma lazyScrollScript_terminates_iff:
  "(\<exists>r. lazyScrollScript g = Some r) \<longleftrightarrow> (\<exists>k. g k \<le> 500 * int k)"
proof
  assume "\<exists>r. lazyScrollScript g = Some r"
  then obtain r where "scrollLoop g 0 0 (g 0) [] = Some r"
    by (auto simp: lazyScrollScript_def split: option.splits)
  from scrollLoop_Some_reaches[OF this] show "\<exists>k. g k \<le> 500 * int k" by simp
next
  assume "\<exists>k. g k \<le> 500 * int k"
  then obtain k where "g (0 + k) \<le> 0 + 500 * int k" by auto
  from scrollLoop_reaches_Some[of g 0 k 0 "[]", OF this]
  show "\<exists>r. lazyScrollScript g = Some r"
    by (auto simp: lazyScrollScript_def split: option.splits)
qed

text \<open>
  C3, as stated, fails: on a page that grows by 500 pixels with every increment (an
  endless feed) the sweep never finishes.
\<close>

theorem C3_growing_page_never_finishes:
  "lazyScrollScript (\<lambda>k. 1000 + 500 * int k) = None"
proof (cases "lazyScrollScript (\<lambda>k. 1000 + 500 * int k)")
  case None
  then show ?thesis .
next
  case (Some r)
  then have "\<exists>k. (1000 + 500 * int k) \<le> 500 * int k"
    using lazyScrollScript_terminates_iff[of "\<lambda>k. 1000 + 500 * int k"] by blast
  then show ?thesis by simp
qed

text \<open>
  C3, amended: the sweep finishes exactly on the pages where some reading of the height
  is at most the position reached then (\<open>500 * k\<close> at the \<open>k\<close>-th reading); so it
  finishes on every page whose height stays under a bound, also when the height grows
  for a while.
\<close>

theorem C3_sweep_terminates:
  "((\<exists>r. lazyScrollScript getScrollHeight = Some r) \<longleftrightarrow>
      (\<exists>k. getScrollHeight k \<le> 500 * int k)) \<and>
   ((\<exists>H. \<forall>k. getScrollHeight k \<le> H) \<longrightarrow> (\<exists>r. lazyScrollScript getScrollHeight = Some r))"
proof
  show "(\<exists>r. lazyScrollScript getScrollHeight = Some r) \<longleftrightarrow>
      (\<exists>k. getScrollHeight k \<le> 500 * int k)"
    by (rule lazyScrollScript_terminates_iff)
next
  show "(\<exists>H. \<forall>k. getScrollHeight k \<le> H) \<longrightarrow> (\<exists>r. lazyScrollScript getScrollHeight = Some r)"
  proof
    assume "\<exists>H. \<forall>k. getScrollHeight k \<le> H"
    then obtain H where H: "\<And>k. getScrollHeight k \<le> H" by blast
    have "H \<le> 500 * int (nat H)" by simp
    with H[of "nat H"] have "getScrollHeight (nat H) \<le> 500 * int (nat H)" by linarith
    then show "\<exists>r. lazyScrollScript getScrollHeight = Some r"
      using lazyScrollScript_terminates_iff by blast
  qed
qed

theorem C3_sweep_terminates_witness:
  "(\<forall>k. (if k < 2 then 1200 else 1700 :: int) \<le> 1700) \<and>
   lazyScrollScript (\<lambda>k. if k < 2 then 1200 else 1700) = Some [0, 500, 1000, 1500, 1700]"
proof -
  have bounded: "\<exists>H. \<forall>k. (if k < 2 then 1200 else 1700 :: int) \<le> H"
    by (rule exI[of _ 1700]) simp
  from C3_sweep_terminates[of "\<lambda>k. if k < 2 then 1200 else 1700"] bounded
  have "\<exists>r. lazyScrollScript (\<lambda>k. if k < 2 then 1200 else 1700) = Some r" by blast
  then show ?thesis by (simp add: lazyScrollScript_def scrollLoop.simps)
qed

section \<open>Waiting for the images\<close>

text \<open>
  A run of \<open>checkImages\<close> ends at the first poll that resolves, and only there. With
  timers that are never early the poll numbered \<open>k\<close> runs \<open>200 * k\<close> ms after the start
  or later.
\<close>

lemma checkImages_step:
  "checkImages P timeout k = (if resolvesAt P timeout k then Some k else checkImages P timeout (k + 1))"
  by (subst checkImages.simps) (simp add: resolvesAt_def Let_def)

lemma checkImages_first:
  "resolvesAt P timeout (k + j) \<Longrightarrow>
   \<exists>m. checkImages P timeout k = Some m \<and> k \<le> m \<and> m \<le> k + j \<and> resolvesAt P timeout m"
proof (induction j arbitrary: k)
  case 0
  then show ?case by (subst checkImages_step) simp
next
  case (Suc j)
  show ?case
  proof (cases "resolvesAt P timeout k")
    case True
    then show ?thesis by (subst checkImages_step) simp
  next
    case False
    from Suc.prems have "resolvesAt P timeout ((k + 1) + j)" by simp
    from Suc.IH[OF this] obtain m where
      "checkImages P timeout (k + 1) = Some m" "k + 1 \<le> m" "m \<le> k + 1 + j" "resolvesAt P timeout m"
      by blast
    with False show ?thesis by (subst checkImages_step) auto
  qed
qed

lemma checkImages_Some:
  assumes "checkImages P timeout k = Some m"
  shows "k \<le> m \<and> resolvesAt P timeout m \<and> (\<forall>j. k \<le> j \<and> j < m \<longrightarrow> \<not> resolvesAt P timeout j)"
proof -
  have "(case ((P, timeout), k) of ((P', timeout'), k') \<Rightarrow>
          k' \<le> m \<and> resolvesAt P' timeout' m \<and>
          (\<forall>j. k' \<le> j \<and> j < m \<longrightarrow> \<not> resolvesAt P' timeout' j))"
  proof (rule checkImages.raw_induct[where Pa = "\<lambda>x m. (case x of ((P', timeout'), k') \<Rightarrow>
          k' \<le> m \<and> resolvesAt P' timeout' m \<and>
          (\<forall>j. k' \<le> j \<and> j < m \<longrightarrow> \<not> resolvesAt P' timeout' j))", OF _ assms])
    fix f :: "page \<Rightarrow> int \<Rightarrow> nat \<Rightarrow> nat option" and P' timeout' k m
    assume IH: "\<And>P' timeout' k m. f P' timeout' k = Some m \<Longrightarrow>
        (case ((P', timeout'), k) of ((P', timeout'), k') \<Rightarrow>
          k' \<le> m \<and> resolvesAt P' timeout' m \<and>
          (\<forall>j. k' \<le> j \<and> j < m \<longrightarrow> \<not> resolvesAt P' timeout' j))"
    assume step: "(let visibleImages = filter isVisibleImage (images P' k)
        in if length visibleImages = 0 then Some k
           else if list_all isLoaded visibleImages \<or> pollTime P' k - startTime P' > timeout'
           then Some k
           else f P' timeout' (k + 1)) = Some m"
    have "k \<le> m \<and> resolvesAt P' timeout' m \<and>
          (\<forall>j. k \<le> j \<and> j < m \<longrightarrow> \<not> resolvesAt P' timeout' j)"
    proof (cases "resolvesAt P' timeout' k")
      case True
      with step have "m = k" by (auto simp: resolvesAt_def Let_def split: if_splits)
      with True show ?thesis by auto
    next
      case False
      with step have "f P' timeout' (k + 1) = Some m"
        by (auto simp: resolvesAt_def Let_def split: if_splits)
      from IH[OF this] have r: "k + 1 \<le> m" "resolvesAt P' timeout' m"
        "\<forall>j. k + 1 \<le> j \<and> j < m \<longrightarrow> \<not> resolvesAt P' timeout' j"
        by auto
      show ?thesis
      proof (intro conjI allI impI)
        show "k \<le> m" using r(1) by simp
      next
        show "resolvesAt P' timeout' m" by (rule r(2))
      next
        fix j assume "k \<le> j \<and> j < m"
        then have "j = k \<or> (k + 1 \<le> j \<and> j < m)" by auto
        then show "\<not> resolvesAt P' timeout' j" using False r(3) by auto
      qed
    qed
    then show "(case ((P', timeout'), k) of ((P', timeout'), k') \<Rightarrow>
          k' \<le> m \<and> resolvesAt P' timeout' m \<and>
          (\<forall>j. k' \<le> j \<and> j < m \<longrightarrow> \<not> resolvesAt P' timeout' j))" by simp
  qed
  then show ?thesis by simp
qed

lemma neverEarly_pollTime: "neverEarly P \<Longrightarrow> startTime P + 200 * int k \<le> pollTime P k"
proof (induction k)
  case 0
  then show ?case by (simp add: neverEarly_def)
next
  case (Suc k)
  then have "pollTime P k + 200 \<le> pollTime P (Suc k)" by (simp add: neverEarly_def)
  with Suc show ?case by simp
qed

lemma idealTimers_exact: "idealTimers P \<longleftrightarrow> neverEarly P \<and> lateBy P 0"
  by (auto simp: idealTimers_def neverEarly_def lateBy_def order.antisym)

text \<open>
  The wait ends because the clock advances: where the clock stands still and an image
  never loads, no poll resolves the promise.
\<close>

lemma checkImages_frozen_clock: "checkImages frozenPage 15000 0 = None"
proof (cases "checkImages frozenPage 15000 0")
  case None
  then show ?thesis .
next
  case (Some m)
  from checkImages_Some[OF this] have "resolvesAt frozenPage 15000 m" by simp
  then show ?thesis
    by (simp add: resolvesAt_def frozenPage_def brokenImage_def isVisibleImage_def isLoaded_def)
qed

lemma waitForImages_not_Throw: "fst (waitForImages E timeout h) \<noteq> Throw e"
  by (cases "reply E h (EvaluateWaitImages timeout)")
     (simp_all add: waitForImages_def tryCatch_def perform_def ret_def)

text \<open>
  C4, as stated, fails in its count of polls and in its bound on the time. With the
  pipeline's timeout of 15000 ms, ideal timers and an image that never loads, the
  promise is resolved by the poll numbered 76, the 77th, one more than
  \<open>ceil(15000 / 200) + 1 = 76\<close>: the test is \<^verbatim>\<open>Date.now() - startTime > timeout\<close>,
  so the poll at exactly 15000 ms goes on. And the bound \<open>timeout + 200\<close> is that of
  ideal timers only: with a timeout of 1000 ms and a timer that is 1 ms late, the
  promise is resolved 1201 ms after the start.
\<close>

theorem C4_poll_count_counterexample:
  "idealTimers brokenImagePage \<and> checkImages brokenImagePage 15000 0 = Some 76 \<and>
   \<not> ((76::nat) + 1 \<le> nat (ceiling (15000 / (200::rat))) + 1) \<and>
   neverEarly latePage \<and> lateBy latePage 1 \<and> checkImages latePage 1000 0 = Some 6 \<and>
   \<not> (pollTime latePage 6 - startTime latePage \<le> 1000 + 200)"
proof -
  have "idealTimers brokenImagePage" by (simp add: idealTimers_def brokenImagePage_def)
  moreover have "checkImages brokenImagePage 15000 0 = Some 76" by code_simp
  moreover have "neverEarly latePage" by (simp add: neverEarly_def latePage_def)
  moreover have "lateBy latePage 1" by (simp add: lateBy_def latePage_def)
  moreover have "checkImages latePage 1000 0 = Some 6" by code_simp
  moreover have "\<not> (pollTime latePage 6 - startTime latePage \<le> 1000 + 200)"
    by (simp add: latePage_def)
  ultimately show ?thesis by simp
qed

text \<open>
  C4, amended. For every page and every timeout: a page with no visible image resolves
  the promise at the first poll; \<open>waitForImages\<close> never throws; and the poll that
  resolves the promise is the first that finds no visible image, or all of them loaded,
  or the timeout exceeded, so every poll before it ran at most \<open>timeout\<close> ms after the
  start. With timers that are never early the wait ends, after at most
  \<open>floor(timeout / 200) + 2\<close> polls (2 for a negative timeout), and if the timers are at
  most \<open>l\<close> ms late it ends at most \<open>timeout + 200 + l\<close> ms after the start: within
  \<open>timeout + 200\<close> ms with ideal timers.
\<close>

theorem C4_image_wait_bounded:
  "(filter isVisibleImage (images P 0) = [] \<longrightarrow> checkImages P timeout 0 = Some 0) \<and>
   (\<forall>E h. \<not> isThrow (fst (waitForImages E timeout h))) \<and>
   (\<forall>m. checkImages P timeout 0 = Some m \<longrightarrow>
        resolvesAt P timeout m \<and> (\<forall>j < m. pollTime P j - startTime P \<le> timeout)) \<and>
   (neverEarly P \<longrightarrow>
      (\<exists>m. checkImages P timeout 0 = Some m \<and>
           m + 1 \<le> nat (max 0 timeout div 200) + 2 \<and>
           (\<forall>l. lateBy P l \<longrightarrow> pollTime P m - startTime P \<le> max 0 timeout + 200 + l)))"
proof -
  have none: "filter isVisibleImage (images P 0) = [] \<longrightarrow> checkImages P timeout 0 = Some 0"
    by (subst checkImages_step) (simp add: resolvesAt_def)
  have nothrow: "\<forall>E h. \<not> isThrow (fst (waitForImages E timeout h))"
  proof (intro allI)
    fix E h
    show "\<not> isThrow (fst (waitForImages E timeout h))"
      using waitForImages_not_Throw[of E timeout h] by (cases "fst (waitForImages E timeout h)") auto
  qed
  have first: "\<forall>m. checkImages P timeout 0 = Some m \<longrightarrow>
        resolvesAt P timeout m \<and> (\<forall>j < m. pollTime P j - startTime P \<le> timeout)"
  proof (intro allI impI)
    fix m assume m: "checkImages P timeout 0 = Some m"
    from checkImages_Some[OF m] have e: "resolvesAt P timeout m"
      "\<forall>j. j < m \<longrightarrow> \<not> resolvesAt P timeout j" by simp_all
    from e(2) have "\<forall>j < m. pollTime P j - startTime P \<le> timeout"
      by (auto simp: resolvesAt_def)
    with e(1) show "resolvesAt P timeout m \<and> (\<forall>j < m. pollTime P j - startTime P \<le> timeout)"
      by simp
  qed
  have bound: "neverEarly P \<longrightarrow>
      (\<exists>m. checkImages P timeout 0 = Some m \<and>
           m + 1 \<le> nat (max 0 timeout div 200) + 2 \<and>
           (\<forall>l. lateBy P l \<longrightarrow> pollTime P m - startTime P \<le> max 0 timeout + 200 + l))"
  proof
    assume ne: "neverEarly P"
    let ?n = "nat (max 0 timeout div 200) + 1"
    have "timeout < 200 * int ?n"
    proof -
      have "\<And>T::int. T < 200 * (T div 200 + 1)" by presburger
      then have "max 0 timeout < 200 * (max 0 timeout div 200 + 1)" .
      moreover have "int ?n = max 0 timeout div 200 + 1" by simp
      ultimately show ?thesis by simp
    qed
    then have "resolvesAt P timeout (0 + ?n)"
      using neverEarly_pollTime[OF ne, of ?n] by (simp add: resolvesAt_def)
    from checkImages_first[OF this] obtain m where
      m: "checkImages P timeout 0 = Some m" "m \<le> ?n" by auto
    from first m(1) have e: "\<forall>j < m. pollTime P j - startTime P \<le> timeout" by simp
    have "\<forall>l. lateBy P l \<longrightarrow> pollTime P m - startTime P \<le> max 0 timeout + 200 + l"
    proof (intro allI impI)
      fix l assume l: "lateBy P l"
      show "pollTime P m - startTime P \<le> max 0 timeout + 200 + l"
      proof (cases m)
        case 0
        from l have "pollTime P 0 \<le> startTime P + l" by (simp add: lateBy_def)
        with 0 show ?thesis by simp
      next
        case (Suc j)
        with e have "pollTime P j - startTime P \<le> timeout" by simp
        moreover from l have "pollTime P (Suc j) \<le> pollTime P j + 200 + l" by (simp add: lateBy_def)
        ultimately show ?thesis using Suc by simp
      qed
    qed
    with m show "\<exists>m. checkImages P timeout 0 = Some m \<and>
           m + 1 \<le> nat (max 0 timeout div 200) + 2 \<and>
           (\<forall>l. lateBy P l \<longrightarrow> pollTime P m - startTime P \<le> max 0 timeout + 200 + l)"
      by auto
  qed
  from none nothrow first bound show ?thesis by blast
qed

text \<open>
  Instances: the image that never loads, with ideal timers (resolved by the poll
  numbered 76, at 15200 ms, the poll before it at 15000 ms) and with a timer 1 ms late
  (resolved at 1201 ms for a timeout of 1000 ms); and a page whose only image is not
  displayed.
\<close>

theorem C4_image_wait_bounded_witness:
  "neverEarly brokenImagePage \<and> lateBy brokenImagePage 0 \<and>
   checkImages brokenImagePage 15000 0 = Some 76 \<and>
   pollTime brokenImagePage 76 - startTime brokenImagePage = 15200 \<and>
   pollTime brokenImagePage 75 - startTime brokenImagePage = 15000 \<and>
   filter isVisibleImage (images noImagePage 0) = [] \<and> checkImages noImagePage 15000 0 = Some 0 \<and>
   neverEarly latePage \<and> lateBy latePage 1 \<and> checkImages latePage 1000 0 = Some 6 \<and>
   pollTime latePage 6 - startTime latePage = 1201"
proof -
  have b: "neverEarly brokenImagePage" "lateBy brokenImagePage 0"
    by (simp_all add: neverEarly_def lateBy_def brokenImagePage_def)
  have l: "neverEarly latePage" "lateBy latePage 1"
    by (simp_all add: neverEarly_def lateBy_def latePage_def)
  have e1: "checkImages brokenImagePage 15000 0 = Some 76" by code_simp
  have e2: "filter isVisibleImage (images noImagePage 0) = []"
    by (simp add: noImagePage_def isVisibleImage_def brokenImage_def)
  have e3: "checkImages latePage 1000 0 = Some 6" by code_simp
  from C4_image_wait_bounded[of noImagePage 15000] e2
  have "checkImages noImagePage 15000 0 = Some 0" by simp
  moreover from C4_image_wait_bounded[of brokenImagePage 15000] b e1
  have "pollTime brokenImagePage 76 - startTime brokenImagePage \<le> 15200"
    "pollTime brokenImagePage 75 - startTime brokenImagePage \<le> 15000" by auto
  moreover have "15200 \<le> pollTime brokenImagePage 76 - startTime brokenImagePage"
    "15000 \<le> pollTime brokenImagePage 75 - startTime brokenImagePage"
    by (simp_all add: brokenImagePage_def)
  moreover from C4_image_wait_bounded[of latePage 1000] l e3
  have "pollTime latePage 6 - startTime latePage \<le> 1201" by auto
  moreover have "1201 \<le> pollTime latePage 6 - startTime latePage" by (simp add: latePage_def)
  ultimately show ?thesis using b l e1 e2 e3 by simp
qed


section \<open>Traces of programs\<close>

text \<open>
  Every program built from the combinators appends to the trace; \<open>emits Q\<close> bounds the
  calls it appends.
\<close>

lemma emitsI: "(\<And>h. \<exists>t. snd (p h) = h @ t \<and> list_all (\<lambda>ev. Q (fst ev)) t) \<Longrightarrow> emits Q p"
  by (simp add: emits_def)

lemma emitsD: "emits Q p \<Longrightarrow> \<exists>t. snd (p h) = h @ t \<and> list_all (\<lambda>ev. Q (fst ev)) t"
  by (simp add: emits_def)

lemma emits_ret: "emits Q (ret x)"
  by (simp add: emits_def ret_def)

lemma emits_throw: "emits Q (throw e)"
  by (simp add: emits_def throw_def)

lemma emits_liftE: "emits Q (liftE r)"
  by (cases r) (simp_all add: liftE_def emits_ret emits_throw)

lemma emits_perform: "Q c \<Longrightarrow> emits Q (perform E c)"
  by (simp add: emits_def perform_def)

lemma emits_performWith: "Q c \<Longrightarrow> emits Q (performWith E c v)"
  by (auto simp: emits_def performWith_def split: res.splits)

lemma emits_readClock: "Q ReadClock \<Longrightarrow> emits Q (readClock E)"
  by (simp add: emits_def readClock_def)

lemma emits_mathRandom: "Q MathRandom \<Longrightarrow> emits Q (mathRandom E)"
  by (simp add: emits_def mathRandom_def)

lemma emits_seq:
  assumes "emits Q p" and "\<And>x. emits Q (f x)"
  shows "emits Q (seq p f)"
proof (rule emitsI)
  fix h
  obtain r h1 where ph: "p h = (r, h1)" by (cases "p h")
  from emitsD[OF assms(1), of h] ph obtain t where t: "h1 = h @ t" "list_all (\<lambda>ev. Q (fst ev)) t"
    by auto
  show "\<exists>t. snd (seq p f h) = h @ t \<and> list_all (\<lambda>ev. Q (fst ev)) t"
  proof (cases r)
    case (Ret x)
    from emitsD[OF assms(2), of x h1] obtain t' where
      "snd (f x h1) = h1 @ t'" "list_all (\<lambda>ev. Q (fst ev)) t'" by blast
    with t Ret ph show ?thesis by (simp add: seq_def)
  next
    case (Throw e)
    with t ph show ?thesis by (simp add: seq_def)
  next
    case Hang
    with t ph show ?thesis by (simp add: seq_def)
  qed
qed

lemma emits_tryCatch:
  assumes "emits Q p" and "\<And>e. emits Q (f e)"
  shows "emits Q (tryCatch p f)"
proof (rule emitsI)
  fix h
  obtain r h1 where ph: "p h = (r, h1)" by (cases "p h")
  from emitsD[OF assms(1), of h] ph obtain t where t: "h1 = h @ t" "list_all (\<lambda>ev. Q (fst ev)) t"
    by auto
  show "\<exists>t. snd (tryCatch p f h) = h @ t \<and> list_all (\<lambda>ev. Q (fst ev)) t"
  proof (cases r)
    case (Throw e)
    from emitsD[OF assms(2), of e h1] obtain t' where
      "snd (f e h1) = h1 @ t'" "list_all (\<lambda>ev. Q (fst ev)) t'" by blast
    with t Throw ph show ?thesis by (simp add: tryCatch_def)
  next
    case (Ret x)
    with t ph show ?thesis by (simp add: tryCatch_def)
  next
    case Hang
    with t ph show ?thesis by (simp add: tryCatch_def)
  qed
qed

lemma emits_tryFinally:
  assumes "emits Q p" and "emits Q f"
  shows "emits Q (tryFinally p f)"
proof (rule emitsI)
  fix h
  obtain r h1 where ph: "p h = (r, h1)" by (cases "p h")
  from emitsD[OF assms(1), of h] ph obtain t where t: "h1 = h @ t" "list_all (\<lambda>ev. Q (fst ev)) t"
    by auto
  obtain r' h2 where fh: "f h1 = (r', h2)" by (cases "f h1")
  from emitsD[OF assms(2), of h1] fh obtain t' where t': "h2 = h1 @ t'" "list_all (\<lambda>ev. Q (fst ev)) t'"
    by auto
  show "\<exists>t. snd (tryFinally p f h) = h @ t \<and> list_all (\<lambda>ev. Q (fst ev)) t"
    using ph fh t t' by (cases r; cases r') (simp_all add: tryFinally_def)
qed

lemma emits_weaken: "emits Q p \<Longrightarrow> (\<And>c. Q c \<Longrightarrow> Q' c) \<Longrightarrow> emits Q' p"
  unfolding emits_def by (metis (mono_tags, lifting) list_all_length)

lemmas emits_intros = emits_ret emits_throw emits_liftE emits_perform emits_performWith
  emits_readClock emits_mathRandom emits_seq emits_tryCatch emits_tryFinally

lemma emits_dismissLoop:
  "(\<And>s n. Q (IsVisible s) \<and> Q (Click s n)) \<Longrightarrow> Q (WaitForTimeout 1000) \<Longrightarrow> emits Q (dismissLoop E ss n)"
  by (induction ss arbitrary: n) (auto simp: dismissOne_def intro!: emits_intros)

lemma emits_dismissModals:
  "(\<And>s n. Q (IsVisible s) \<and> Q (Click s n)) \<Longrightarrow> (\<And>d. Q (WaitForTimeout d)) \<Longrightarrow> (\<And>k. Q (KeyboardPress k)) \<Longrightarrow> emits Q (dismissModals E)"
  by (auto simp: dismissModals_def pressEscape_def intro!: emits_intros emits_dismissLoop)

lemma emits_prepare: "emits pageCall (preparePageForScreenshot E)"
  by (auto simp: preparePageForScreenshot_def triggerLazyLoadedImages_def waitForImages_def pageCall_def
      intro!: emits_intros emits_dismissModals)

lemma emits_originOf: "emits Q (originOf E u)"
  by (cases "newURL E u") (simp_all add: originOf_def emits_ret emits_throw)

lemma emits_generateFilenameNow: "Q ReadClock \<Longrightarrow> emits Q (generateFilenameNow E u)"
  by (cases "newURL E u") (auto simp: generateFilenameNow_def intro!: emits_intros)

lemma emits_createStealthContext: "Q MathRandom \<Longrightarrow> Q NewContext \<Longrightarrow> Q AddInitScript \<Longrightarrow> emits Q (createStealthContext E)"
  by (auto simp: createStealthContext_def intro!: emits_intros)

lemma emits_waitForLoad: "Q (WaitForLoadState 10000) \<Longrightarrow> emits Q (waitForLoad E)"
  by (auto simp: waitForLoad_def intro!: emits_intros)

lemma emits_prepare_noGoto: "emits (\<lambda>c. \<not> isGoto c) (preparePageForScreenshot E)"
  by (rule emits_weaken[OF emits_prepare]) (simp add: pageCall_def)

lemma emits_navigate:
  "Q (Goto u networkidle 15000) \<Longrightarrow> Q (Goto u domcontentloaded 30000) \<Longrightarrow>
   Q (WaitForTimeout g) \<Longrightarrow> emits Q (navigate E u g)"
  by (auto simp: navigate_def intro!: emits_intros)

lemma emits_cropLoop: "emits (\<lambda>c. \<not> isGoto c) (cropLoop E dir cs)"
  by (induction cs) (auto simp: cropOne_def intro!: emits_intros split: option.splits)

lemma tryCatch_rethrow: "tryCatch p (\<lambda>error. throw error) = p"
proof
  fix h
  obtain r h1 where "p h = (r, h1)" by (cases "p h")
  then show "tryCatch p (\<lambda>error. throw error) h = p h"
    by (cases r) (simp_all add: tryCatch_def throw_def)
qed

text \<open>Evaluating the programs on the sample platforms.\<close>

lemmas run_defs = seq_def tryCatch_def tryFinally_def perform_def performWith_def ret_def throw_def
  readClock_def mathRandom_def liftE_def Let_def

lemmas crop_defs = crop_def loadManifest_def cropBody_def cropOne_def createStealthBrowser_def
  createStealthContext_def navigate_def waitForLoad_def preparePageForScreenshot_def
  dismissModals_def dismissOne_def pressEscape_def dismissSelectors_def
  triggerLazyLoadedImages_def waitForImages_def subfolderToHostname_def replace_char_def

lemmas scrape_defs = scrapeUrls_def scrapeUrl_def scrapeBody_def ensureOutputDirectories_def
  getDomainFolder_def generateFilenameNow_def generateFilename_def originOf_def sampleParser_def

lemma quietEnv_fields:
  "newURL quietEnv = sampleParser" "cwd quietEnv = ''/work''" "reply quietEnv h c = Ret ()"
  "visible quietEnv h s = False" "html quietEnv h = ''<html></html>''"
  "clock quietEnv h = 1772020800000 + int (length h)" "random quietEnv h = 1 / 2"
  "parsed quietEnv h = twoComponents"
  by (simp_all add: quietEnv_def)

lemma noContextEnv_fields:
  "newURL noContextEnv = sampleParser" "cwd noContextEnv = ''/work''"
  "reply noContextEnv h c = (if c = NewContext then Throw (Error ''Target closed'') else Ret ())"
  "visible noContextEnv h s = False" "parsed noContextEnv h = twoComponents"
  by (simp_all add: noContextEnv_def quietEnv_def)

lemma busyEnv_fields:
  "newURL busyEnv = sampleParser" "cwd busyEnv = ''/work''"
  "reply busyEnv h c = (case c of Goto u networkidle t \<Rightarrow> Throw (Error ''Timeout 15000ms exceeded'') | _ \<Rightarrow> Ret ())"
  "visible busyEnv h s = False" "parsed busyEnv h = twoComponents"
  by (simp_all add: busyEnv_def quietEnv_def)

lemma offlineEnv_fields:
  "newURL offlineEnv = sampleParser" "cwd offlineEnv = ''/work''"
  "reply offlineEnv h c = (case c of Goto u w t \<Rightarrow> Throw (Error ''net::ERR_INTERNET_DISCONNECTED'') | _ \<Rightarrow> Ret ())"
  "visible offlineEnv h s = False" "parsed offlineEnv h = twoComponents"
  by (simp_all add: offlineEnv_def quietEnv_def)




section \<open>Navigation\<close>

text \<open>
  The trace of a program that navigates once: calls that are no navigation, the
  navigation, calls that are no navigation. The calls before the navigation are not
  guarded: the program goes on to navigate exactly when all of them returned.
\<close>

lemma noGoto_append [simp]: "noGoto (a @ b) \<longleftrightarrow> noGoto a \<and> noGoto b"
  by (simp add: noGoto_def)

lemma noGoto_Nil [simp]: "noGoto []"
  by (simp add: noGoto_def)

lemma returned_append [simp]: "returned (a @ b) \<longleftrightarrow> returned a \<and> returned b"
  by (simp add: returned_def)

lemma returned_Nil [simp]: "returned []"
  by (simp add: returned_def)

lemma returned_single [simp]: "returned [(c, r)] \<longleftrightarrow> isRet r"
  by (cases r) (simp_all add: returned_def)

lemma strictI:
  "(\<And>h. \<exists>t. snd (p h) = h @ t \<and> noGoto t \<and> (isRet (fst (p h)) \<longleftrightarrow> returned t)) \<Longrightarrow> strict p"
  by (simp add: strict_def)

lemma strictD:
  "strict p \<Longrightarrow> \<exists>t. snd (p h) = h @ t \<and> noGoto t \<and> (isRet (fst (p h)) \<longleftrightarrow> returned t)"
  by (simp add: strict_def)

lemma strict_ret: "strict (ret x)"
  by (rule strictI) (simp add: ret_def)

lemma strict_perform: "\<not> isGoto c \<Longrightarrow> strict (perform E c)"
  by (rule strictI) (simp add: perform_def noGoto_def)

lemma strict_performWith: "\<not> isGoto c \<Longrightarrow> strict (performWith E c v)"
  by (rule strictI) (simp add: performWith_def noGoto_def split: res.splits)

lemma strict_readClock: "strict (readClock E)"
  by (rule strictI) (simp add: readClock_def noGoto_def)

lemma strict_mathRandom: "strict (mathRandom E)"
  by (rule strictI) (simp add: mathRandom_def noGoto_def)

lemma strict_seq:
  assumes "strict p" and "\<And>x. strict (f x)"
  shows "strict (seq p f)"
proof (rule strictI)
  fix h
  obtain r h1 where ph: "p h = (r, h1)" by (cases "p h")
  from strictD[OF assms(1), of h] ph obtain t where
    t: "h1 = h @ t" "noGoto t" "isRet r \<longleftrightarrow> returned t" by auto
  show "\<exists>t. snd (seq p f h) = h @ t \<and> noGoto t \<and> (isRet (fst (seq p f h)) \<longleftrightarrow> returned t)"
  proof (cases r)
    case (Ret x)
    from strictD[OF assms(2), of x h1] obtain t2 where
      t2: "snd (f x h1) = h1 @ t2" "noGoto t2" "isRet (fst (f x h1)) \<longleftrightarrow> returned t2" by blast
    have "seq p f h = f x h1" using ph Ret by (simp add: seq_def)
    with t t2 Ret have "snd (seq p f h) = h @ (t @ t2) \<and> noGoto (t @ t2) \<and>
        (isRet (fst (seq p f h)) \<longleftrightarrow> returned (t @ t2))" by simp
    then show ?thesis by blast
  next
    case (Throw e)
    with ph t have "snd (seq p f h) = h @ t \<and> noGoto t \<and>
        (isRet (fst (seq p f h)) \<longleftrightarrow> returned t)" by (simp add: seq_def)
    then show ?thesis by blast
  next
    case Hang
    with ph t have "snd (seq p f h) = h @ t \<and> noGoto t \<and>
        (isRet (fst (seq p f h)) \<longleftrightarrow> returned t)" by (simp add: seq_def)
    then show ?thesis by blast
  qed
qed

lemmas strict_intros = strict_ret strict_perform strict_performWith strict_readClock
  strict_mathRandom strict_seq

lemma strict_createStealthContext: "strict (createStealthContext E)"
  unfolding createStealthContext_def by (intro strict_intros; simp)

lemma strict_createStealthBrowser: "strict (createStealthBrowser E)"
  unfolding createStealthBrowser_def by (intro strict_intros; simp)

lemma strict_ensureOutputDirectories: "strict (ensureOutputDirectories E d)"
  unfolding ensureOutputDirectories_def by (intro strict_intros; simp)

lemma strict_originOf: "newURL E u \<noteq> None \<Longrightarrow> strict (originOf E u)"
  by (auto simp: originOf_def strict_ret)

lemma shapedI:
  "(\<And>h. \<exists>pre nav post. snd (p h) = h @ pre @ nav @ post \<and> noGoto pre \<and> noGoto post \<and>
        (if returned pre then navTrace aborted u g nav post (fst (p h))
         else nav = [] \<and> \<not> isRet (fst (p h)))) \<Longrightarrow> shaped aborted u g p"
  by (simp add: shaped_def)

lemma shapedD:
  "shaped aborted u g p \<Longrightarrow> \<exists>pre nav post. snd (p h) = h @ pre @ nav @ post \<and> noGoto pre \<and> noGoto post \<and>
        (if returned pre then navTrace aborted u g nav post (fst (p h))
         else nav = [] \<and> \<not> isRet (fst (p h)))"
  by (simp add: shaped_def)

lemma shaped_seq:
  assumes "strict p" and "\<And>x. shaped aborted u g (f x)"
  shows "shaped aborted u g (seq p f)"
proof (rule shapedI)
  fix h
  obtain r h1 where ph: "p h = (r, h1)" by (cases "p h")
  from strictD[OF assms(1), of h] ph obtain t where
    t: "h1 = h @ t" "noGoto t" "isRet r \<longleftrightarrow> returned t" by auto
  show "\<exists>pre nav post. snd (seq p f h) = h @ pre @ nav @ post \<and> noGoto pre \<and> noGoto post \<and>
        (if returned pre then navTrace aborted u g nav post (fst (seq p f h))
         else nav = [] \<and> \<not> isRet (fst (seq p f h)))"
  proof (cases r)
    case (Ret x)
    from shapedD[OF assms(2), of x h1] obtain pre nav post where
      s: "snd (f x h1) = h1 @ pre @ nav @ post" "noGoto pre" "noGoto post"
         "if returned pre then navTrace aborted u g nav post (fst (f x h1))
          else nav = [] \<and> \<not> isRet (fst (f x h1))" by blast
    have "seq p f h = f x h1" using ph Ret by (simp add: seq_def)
    with s t Ret have "snd (seq p f h) = h @ (t @ pre) @ nav @ post \<and> noGoto (t @ pre) \<and> noGoto post \<and>
        (if returned (t @ pre) then navTrace aborted u g nav post (fst (seq p f h))
         else nav = [] \<and> \<not> isRet (fst (seq p f h)))" by (simp split: if_splits)
    then show ?thesis by blast
  next
    case (Throw e)
    with ph t have "snd (seq p f h) = h @ t @ [] @ [] \<and> noGoto t \<and> noGoto [] \<and>
        (if returned t then navTrace aborted u g [] [] (fst (seq p f h))
         else [] = ([] :: trace) \<and> \<not> isRet (fst (seq p f h)))" by (simp add: seq_def)
    then show ?thesis by blast
  next
    case Hang
    with ph t have "snd (seq p f h) = h @ t @ [] @ [] \<and> noGoto t \<and> noGoto [] \<and>
        (if returned t then navTrace aborted u g [] [] (fst (seq p f h))
         else [] = ([] :: trace) \<and> \<not> isRet (fst (seq p f h)))" by (simp add: seq_def)
    then show ?thesis by blast
  qed
qed

lemma shaped_navigate:
  assumes "\<And>x. emits (\<lambda>c. \<not> isGoto c) (f x)"
  shows "shaped abortedIn u g (seq (navigate E u g) f)"
proof (rule shapedI)
  fix h
  let ?G1 = "Goto u networkidle 15000" and ?G2 = "Goto u domcontentloaded 30000"
  let ?go = "seq (navigate E u g) f"
  have post: "\<And>h1. \<exists>t. f () h1 = (fst (f () h1), h1 @ t) \<and> noGoto t"
    using emitsD[OF assms] by (metis noGoto_def prod.collapse)
  have "\<exists>nav post. snd (?go h) = h @ [] @ nav @ post \<and> noGoto post \<and>
        navTrace abortedIn u g nav post (fst (?go h))"
  proof (cases "reply E h ?G1")
    case (Ret x)
    let ?h1 = "h @ [(?G1, Ret ())]"
    from post[of ?h1] obtain t where t: "f () ?h1 = (fst (f () ?h1), ?h1 @ t)" "noGoto t" by blast
    have "?go h = f () ?h1"
      using Ret by (simp add: seq_def navigate_def tryCatch_def perform_def)
    with t have "snd (?go h) = h @ [] @ [(?G1, Ret ())] @ t \<and> noGoto t \<and>
        navTrace abortedIn u g [(?G1, Ret ())] t (fst (?go h))"
      by (metis append_Cons append_Nil append_assoc isThrow.simps(2) navTrace.simps(2) snd_conv)
    then show ?thesis by blast
  next
    case Hang
    then have "?go h = (Hang, h @ [(?G1, Hang)])"
      by (simp add: seq_def navigate_def tryCatch_def perform_def)
    then have "snd (?go h) = h @ [] @ [(?G1, Hang)] @ [] \<and> noGoto [] \<and>
        navTrace abortedIn u g [(?G1, Hang)] [] (fst (?go h))" by simp
    then show ?thesis by blast
  next
    case (Throw e1)
    let ?h1 = "h @ [(?G1, Throw e1)]"
    show ?thesis
    proof (cases "reply E ?h1 ?G2")
      case (Throw e2)
      with \<open>reply E h ?G1 = Throw e1\<close> have "?go h = (Throw e2, ?h1 @ [(?G2, Throw e2)])"
        by (simp add: seq_def navigate_def tryCatch_def perform_def)
      then have "snd (?go h) = h @ [] @ [(?G1, Throw e1), (?G2, Throw e2)] @ [] \<and> noGoto [] \<and>
        navTrace abortedIn u g [(?G1, Throw e1), (?G2, Throw e2)] [] (fst (?go h))" by simp
      then show ?thesis by blast
    next
      case Hang
      with \<open>reply E h ?G1 = Throw e1\<close> have "?go h = (Hang, ?h1 @ [(?G2, Hang)])"
        by (simp add: seq_def navigate_def tryCatch_def perform_def)
      then have "snd (?go h) = h @ [] @ [(?G1, Throw e1), (?G2, Hang)] @ [] \<and> noGoto [] \<and>
        navTrace abortedIn u g [(?G1, Throw e1), (?G2, Hang)] [] (fst (?go h))" by simp
      then show ?thesis by blast
    next
      case (Ret x)
      let ?h2 = "?h1 @ [(?G2, Ret ())]"
      let ?o = "reply E ?h2 (WaitForTimeout g)"
      let ?h3 = "?h2 @ [(WaitForTimeout g, ?o)]"
      let ?nav = "[(?G1, Throw e1), (?G2, Ret ()), (WaitForTimeout g, ?o)]"
      have nav: "navigate E u g h = (?o, ?h3)"
        using Ret \<open>reply E h ?G1 = Throw e1\<close>
        by (simp add: seq_def navigate_def tryCatch_def perform_def)
      show ?thesis
      proof (cases "?o")
        case (Ret y)
        from post[of ?h3] obtain t where t: "f () ?h3 = (fst (f () ?h3), ?h3 @ t)" "noGoto t" by blast
        have "?go h = f () ?h3" using nav Ret by (simp add: seq_def)
        with t have "snd (?go h) = h @ [] @ ?nav @ t \<and> noGoto t \<and>
          navTrace abortedIn u g ?nav t (fst (?go h))"
          by (metis (no_types, lifting) append_Cons append_Nil append_assoc isThrow.simps(1) navTrace.simps(6) snd_conv)
        then show ?thesis by blast
      next
        case (Throw e3)
        then have "?go h = (Throw e3, ?h3)" using nav by (simp add: seq_def)
        then have "snd (?go h) = h @ [] @ ?nav @ [] \<and> noGoto [] \<and>
          navTrace abortedIn u g ?nav [] (fst (?go h))" by simp
        then show ?thesis by blast
      next
        case Hang
        then have "?go h = (Hang, ?h3)" using nav by (simp add: seq_def)
        then have "snd (?go h) = h @ [] @ ?nav @ [] \<and> noGoto [] \<and>
          navTrace abortedIn u g ?nav [] (fst (?go h))" by simp
        then show ?thesis by blast
      qed
    qed
  qed
  then obtain nav post where "snd (?go h) = h @ [] @ nav @ post \<and> noGoto [] \<and> noGoto post \<and>
        (if returned [] then navTrace abortedIn u g nav post (fst (?go h))
         else nav = [] \<and> \<not> isRet (fst (?go h)))" by auto
  then show "\<exists>pre nav post. snd (?go h) = h @ pre @ nav @ post \<and> noGoto pre \<and> noGoto post \<and>
        (if returned pre then navTrace abortedIn u g nav post (fst (?go h))
         else nav = [] \<and> \<not> isRet (fst (?go h)))" by blast
qed

lemma navTrace_close:
  assumes "navTrace abortedIn u g nav post r" and "r \<noteq> Hang"
  shows "navTrace abortedOut u g nav (post @ [(BrowserClose, o')])
           (case o' of Ret x \<Rightarrow> r | Throw e \<Rightarrow> Throw e | Hang \<Rightarrow> Hang)"
proof (cases "\<exists>c1 o1 c2 e. nav = [(c1, o1), (c2, Throw e)]")
  case True
  then obtain c1 o1 c2 e where nav: "nav = [(c1, o1), (c2, Throw e)]" by blast
  with assms(1) have "post = []" "r = Throw e"
    by (cases post; simp)+
  with assms(1) nav show ?thesis by (cases o') simp_all
next
  case False
  with assms show ?thesis
    by (induction "abortedIn :: error \<Rightarrow> trace \<Rightarrow> 'a res \<Rightarrow> bool" u g nav post r rule: navTrace.induct) simp_all
qed

lemma navTrace_hang:
  assumes "navTrace abortedIn u g nav post (Hang :: 'a res)"
  shows "navTrace abortedOut u g nav post (Hang :: 'a res)"
  using assms
  by (induction "abortedIn :: error \<Rightarrow> trace \<Rightarrow> 'a res \<Rightarrow> bool" u g nav post "Hang :: 'a res" rule: navTrace.induct)
     (auto elim: abortedIn.elims)

lemma shaped_tryFinally_close:
  assumes "shaped abortedIn u g p"
  shows "shaped abortedOut u g (tryFinally p (perform E BrowserClose))"
proof (rule shapedI)
  fix h
  let ?go = "tryFinally p (perform E BrowserClose)"
  from shapedD[OF assms, of h] obtain pre nav post where
    s: "snd (p h) = h @ pre @ nav @ post" "noGoto pre" "noGoto post"
       "if returned pre then navTrace abortedIn u g nav post (fst (p h))
        else nav = [] \<and> \<not> isRet (fst (p h))" by blast
  obtain r h1 where ph: "p h = (r, h1)" by (cases "p h")
  show "\<exists>pre nav post. snd (?go h) = h @ pre @ nav @ post \<and> noGoto pre \<and> noGoto post \<and>
        (if returned pre then navTrace abortedOut u g nav post (fst (?go h))
         else nav = [] \<and> \<not> isRet (fst (?go h)))"
  proof (cases "r = Hang")
    case True
    with ph have "?go h = (Hang, h1)" by (simp add: tryFinally_def)
    with s ph True navTrace_hang[of u g nav post]
    have "snd (?go h) = h @ pre @ nav @ post \<and> noGoto pre \<and> noGoto post \<and>
        (if returned pre then navTrace abortedOut u g nav post (fst (?go h))
         else nav = [] \<and> \<not> isRet (fst (?go h)))" by (simp split: if_splits)
    then show ?thesis by blast
  next
    case False
    let ?o = "reply E h1 BrowserClose"
    have go: "?go h = (case ?o of Ret x \<Rightarrow> r | Throw e \<Rightarrow> Throw e | Hang \<Rightarrow> Hang, h1 @ [(BrowserClose, ?o)])"
      using ph False by (cases r; cases ?o) (simp_all add: tryFinally_def perform_def)
    have "if returned pre then navTrace abortedOut u g nav (post @ [(BrowserClose, ?o)]) (fst (?go h))
          else nav = [] \<and> \<not> isRet (fst (?go h))"
    proof (cases "returned pre")
      case True
      with s(4) ph have "navTrace abortedIn u g nav post r" by simp
      from navTrace_close[OF this False, of ?o] True show ?thesis by (simp add: go)
    next
      case F: False
      with s(4) ph have "nav = []" "\<not> isRet r" by simp_all
      then show ?thesis using F by (cases r; cases ?o) (simp_all add: go)
    qed
    moreover have "noGoto (post @ [(BrowserClose, ?o)])" using s(3) by (simp add: noGoto_def)
    moreover have "snd (?go h) = h @ pre @ nav @ post @ [(BrowserClose, ?o)]"
      using go s(1) ph by simp
    ultimately show ?thesis using s(2) by blast
  qed
qed


lemma shaped_scrapeBody:
  "newURL E u \<noteq> None \<Longrightarrow> shaped abortedIn u 5000 (scrapeBody E u d)"
  unfolding scrapeBody_def
  apply (rule shaped_seq, rule strict_createStealthContext)
  apply (rule shaped_seq, rule strict_perform, simp)
  apply (rule shaped_seq, rule strict_originOf, assumption)
  apply (rule shaped_seq, rule strict_perform, simp)
  apply (rule shaped_navigate)
  apply (intro emits_intros emits_waitForLoad emits_prepare_noGoto emits_generateFilenameNow; simp)
  done

lemma shaped_scrapeUrl:
  assumes "newURL E u \<noteq> None"
  shows "shaped abortedOut u 5000 (scrapeUrl E u)"
proof -
  from assms obtain d where d: "liftE (getDomainFolder (newURL E) u) = ret d"
    by (auto simp: getDomainFolder_def liftE_def)
  show ?thesis
    unfolding scrapeUrl_def tryCatch_rethrow d
    apply (rule shaped_seq, rule strict_ret)
    apply (rule shaped_seq, rule strict_ensureOutputDirectories)
    apply (rule shaped_seq, rule strict_readClock)
    apply (rule shaped_seq, rule strict_createStealthBrowser)
    apply (rule shaped_tryFinally_close)
    apply (rule shaped_scrapeBody[OF assms])
    done
qed

lemma shaped_cropBody: "shaped abortedIn u 3000 (cropBody E u dir cs)"
  unfolding cropBody_def
  apply (rule shaped_seq, rule strict_perform, simp)
  apply (rule shaped_navigate)
  apply (intro emits_intros emits_waitForLoad emits_prepare_noGoto emits_cropLoop; simp)
  done

lemma shaped_crop_launch:
  "shaped abortedOut u 3000
     (seq (perform E (Mkdir dir)) (\<lambda>_.
      seq (createStealthBrowser E) (\<lambda>_.
      seq (createStealthContext E) (\<lambda>_.
      tryFinally (cropBody E u dir cs) (perform E BrowserClose)))))"
  apply (rule shaped_seq, rule strict_perform, simp)
  apply (rule shaped_seq, rule strict_createStealthBrowser)
  apply (rule shaped_seq, rule strict_createStealthContext)
  apply (rule shaped_tryFinally_close)
  apply (rule shaped_cropBody)
  done

lemma crop_navigates:
  "\<exists>pre nav post. snd (crop E subfolder h) = h @ pre @ nav @ post \<and> noGoto pre \<and> noGoto post \<and>
      (if componentsOf (parsed E h) \<noteq> [] \<and> returned pre
       then navTrace abortedOut (''https://'' @ subfolderToHostname subfolder) 3000 nav post
              (fst (crop E subfolder h))
       else nav = [] \<and> (isRet (fst (crop E subfolder h)) \<longrightarrow> componentsOf (parsed E h) = []))"
proof -
  let ?L = "LoadManifest (joinPath [cwd E, ''output'', subfolder, ''analysis'', ''manifest.json''])"
  let ?u = "''https://'' @ subfolderToHostname subfolder"
  let ?dir = "joinPath [cwd E, ''output'', subfolder, ''analysis'']"
  let ?cs = "componentsOf (parsed E h)"
  let ?go = "seq (perform E (Mkdir ?dir)) (\<lambda>_.
      seq (createStealthBrowser E) (\<lambda>_.
      seq (createStealthContext E) (\<lambda>_.
      tryFinally (cropBody E ?u ?dir ?cs) (perform E BrowserClose))))"
  show ?thesis
  proof (cases "reply E h ?L")
    case (Throw e)
    then have "crop E subfolder h = (Throw e, h @ [(?L, Throw e)])"
      by (simp add: crop_def loadManifest_def performWith_def seq_def)
    then have "snd (crop E subfolder h) = h @ [(?L, Throw e)] @ [] @ [] \<and>
      noGoto [(?L, Throw e)] \<and> noGoto [] \<and>
      (if ?cs \<noteq> [] \<and> returned [(?L, Throw e)]
       then navTrace abortedOut ?u 3000 [] [] (fst (crop E subfolder h))
       else [] = ([] :: trace) \<and> (isRet (fst (crop E subfolder h)) \<longrightarrow> ?cs = []))"
      by (simp add: noGoto_def)
    then show ?thesis by blast
  next
    case Hang
    then have "crop E subfolder h = (Hang, h @ [(?L, Hang)])"
      by (simp add: crop_def loadManifest_def performWith_def seq_def)
    then have "snd (crop E subfolder h) = h @ [(?L, Hang)] @ [] @ [] \<and>
      noGoto [(?L, Hang)] \<and> noGoto [] \<and>
      (if ?cs \<noteq> [] \<and> returned [(?L, Hang)]
       then navTrace abortedOut ?u 3000 [] [] (fst (crop E subfolder h))
       else [] = ([] :: trace) \<and> (isRet (fst (crop E subfolder h)) \<longrightarrow> ?cs = []))"
      by (simp add: noGoto_def)
    then show ?thesis by blast
  next
    case (Ret x)
    let ?h1 = "h @ [(?L, Ret ())]"
    show ?thesis
    proof (cases "?cs = []")
      case True
      with Ret have "crop E subfolder h = (Ret (), ?h1)"
        by (simp add: crop_def loadManifest_def performWith_def seq_def componentsOf_def ret_def)
      with True have "snd (crop E subfolder h) = h @ [(?L, Ret ())] @ [] @ [] \<and>
        noGoto [(?L, Ret ())] \<and> noGoto [] \<and>
        (if ?cs \<noteq> [] \<and> returned [(?L, Ret ())]
         then navTrace abortedOut ?u 3000 [] [] (fst (crop E subfolder h))
         else [] = ([] :: trace) \<and> (isRet (fst (crop E subfolder h)) \<longrightarrow> ?cs = []))"
        by (simp add: noGoto_def)
      then show ?thesis by blast
    next
      case False
      with Ret have c: "crop E subfolder h = ?go ?h1"
        by (simp add: crop_def loadManifest_def performWith_def seq_def componentsOf_def)
      from shapedD[OF shaped_crop_launch[of ?u E ?dir ?cs], of ?h1] obtain pre nav post where
        s: "snd (?go ?h1) = ?h1 @ pre @ nav @ post" "noGoto pre" "noGoto post"
           "if returned pre then navTrace abortedOut ?u 3000 nav post (fst (?go ?h1))
            else nav = [] \<and> \<not> isRet (fst (?go ?h1))" by blast
      from s c False have "snd (crop E subfolder h) = h @ ((?L, Ret ()) # pre) @ nav @ post \<and>
        noGoto ((?L, Ret ()) # pre) \<and> noGoto post \<and>
        (if ?cs \<noteq> [] \<and> returned ((?L, Ret ()) # pre)
         then navTrace abortedOut ?u 3000 nav post (fst (crop E subfolder h))
         else nav = [] \<and> (isRet (fst (crop E subfolder h)) \<longrightarrow> ?cs = []))"
        by (simp add: noGoto_def returned_def split: if_splits)
      then show ?thesis by blast
    qed
  qed
qed

lemma scrapeUrl_navigates:
  "\<exists>pre nav post. snd (scrapeUrl E u h) = h @ pre @ nav @ post \<and> noGoto pre \<and> noGoto post \<and>
      (if newURL E u \<noteq> None \<and> returned pre
       then navTrace abortedOut u 5000 nav post (fst (scrapeUrl E u h))
       else nav = [] \<and> \<not> isRet (fst (scrapeUrl E u h)))"
proof (cases "newURL E u = None")
  case True
  then have "scrapeUrl E u h = (Throw TypeError, h)"
    by (simp add: scrapeUrl_def getDomainFolder_def liftE_def seq_def throw_def)
  with True have "snd (scrapeUrl E u h) = h @ [] @ [] @ [] \<and> noGoto [] \<and> noGoto [] \<and>
      (if newURL E u \<noteq> None \<and> returned []
       then navTrace abortedOut u 5000 [] [] (fst (scrapeUrl E u h))
       else [] = ([] :: trace) \<and> \<not> isRet (fst (scrapeUrl E u h)))" by simp
  then show ?thesis by blast
next
  case False
  from shapedD[OF shaped_scrapeUrl[OF False], of h] False show ?thesis by simp
qed

text \<open>
  C1, as stated, fails for \<^verbatim>\<open>crop\<close>: after the DOM-parsed fallback it waits 3000 ms,
  not 5000 ms. On a platform where the network never goes idle, \<^verbatim>\<open>crop\<close> makes the
  two attempts and then waits 3 seconds, and never waits 5.
\<close>

theorem C1_crop_grace_is_3s:
  "map fst (take 3 (drop 7 (snd (crop busyEnv ''www-spacenk-com'' [])))) =
     [Goto ''https://www.spacenk.com'' networkidle 15000,
      Goto ''https://www.spacenk.com'' domcontentloaded 30000,
      WaitForTimeout 3000] \<and>
   (WaitForTimeout 5000, Ret ()) \<notin> set (snd (crop busyEnv ''www-spacenk-com'' []))"
  by (simp add: run_defs crop_defs busyEnv_fields twoComponents_def)

text \<open>
  C1, amended: in \<^verbatim>\<open>scrapeUrl\<close> and in \<^verbatim>\<open>crop\<close> the trace of the operation is
  calls that are no navigation, then the navigation, then calls that are no navigation.
  When the URL parses (for \<^verbatim>\<open>crop\<close>: when the manifest has a component) and every
  call before the navigation returned, the operation does navigate, and the navigation
  is: the network-idle attempt with a 15 s timeout alone, when it does not throw; or
  that attempt, which threw, and then the DOM-parsed attempt with a 30 s timeout, once.
  When the fallback completes, the grace wait follows at once, of exactly 5 s in
  \<^verbatim>\<open>scrapeUrl\<close> and of exactly 3 s in \<^verbatim>\<open>crop\<close>. When the fallback throws too,
  nothing follows but the closing of the browser, and the operation throws the
  fallback's error (or what closing the browser throws, and it hangs if closing hangs).
  Otherwise there is no navigation at all, and the operation does not return, but for
  \<^verbatim>\<open>crop\<close> on a manifest without components.
\<close>

theorem C1_navigation_fallback:
  "(\<exists>pre nav post. snd (scrapeUrl E u h) = h @ pre @ nav @ post \<and> noGoto pre \<and> noGoto post \<and>
      (if newURL E u \<noteq> None \<and> returned pre
       then navTrace abortedOut u 5000 nav post (fst (scrapeUrl E u h))
       else nav = [] \<and> \<not> isRet (fst (scrapeUrl E u h)))) \<and>
   (\<exists>pre nav post. snd (crop E subfolder h) = h @ pre @ nav @ post \<and> noGoto pre \<and> noGoto post \<and>
      (if componentsOf (parsed E h) \<noteq> [] \<and> returned pre
       then navTrace abortedOut (''https://'' @ subfolderToHostname subfolder) 3000 nav post
              (fst (crop E subfolder h))
       else nav = [] \<and> (isRet (fst (crop E subfolder h)) \<longrightarrow> componentsOf (parsed E h) = [])))"
  using scrapeUrl_navigates[of E u h] crop_navigates[of E subfolder h] by blast

text \<open>
  Instances. Where no page can be reached, the URL parses, the manifest has two
  components and the calls before the navigation return; \<^verbatim>\<open>scrapeUrl\<close> and
  \<^verbatim>\<open>crop\<close> make the two attempts, close the browser and throw the error of the
  second. Where the network never goes idle, \<^verbatim>\<open>scrapeUrl\<close> makes the two attempts
  and waits 5 s.
\<close>

theorem C1_navigation_fallback_witness:
  "newURL offlineEnv ''https://www.spacenk.com'' \<noteq> None \<and>
   componentsOf (parsed offlineEnv []) \<noteq> [] \<and>
   scrapeUrl offlineEnv ''https://www.spacenk.com'' [] =
     (Throw (Error ''net::ERR_INTERNET_DISCONNECTED''),
      [(Mkdir ''/work/output/www-spacenk-com/html'', Ret ()),
       (Mkdir ''/work/output/www-spacenk-com/screenshots'', Ret ()),
       (ReadClock, Ret ()), (Launch, Ret ()), (MathRandom, Ret ()), (NewContext, Ret ()),
       (AddInitScript, Ret ()), (NewPage, Ret ()),
       (SetExtraHTTPHeaders ''https://www.spacenk.com'', Ret ())] @
      [(Goto ''https://www.spacenk.com'' networkidle 15000, Throw (Error ''net::ERR_INTERNET_DISCONNECTED'')),
       (Goto ''https://www.spacenk.com'' domcontentloaded 30000, Throw (Error ''net::ERR_INTERNET_DISCONNECTED''))] @
      [(BrowserClose, Ret ())]) \<and>
   crop offlineEnv ''www-spacenk-com'' [] =
     (Throw (Error ''net::ERR_INTERNET_DISCONNECTED''),
      [(LoadManifest ''/work/output/www-spacenk-com/analysis/manifest.json'', Ret ()),
       (Mkdir ''/work/output/www-spacenk-com/analysis'', Ret ()),
       (Launch, Ret ()), (MathRandom, Ret ()), (NewContext, Ret ()),
       (AddInitScript, Ret ()), (NewPage, Ret ())] @
      [(Goto ''https://www.spacenk.com'' networkidle 15000, Throw (Error ''net::ERR_INTERNET_DISCONNECTED'')),
       (Goto ''https://www.spacenk.com'' domcontentloaded 30000, Throw (Error ''net::ERR_INTERNET_DISCONNECTED''))] @
      [(BrowserClose, Ret ())]) \<and>
   returned (take 9 (snd (scrapeUrl offlineEnv ''https://www.spacenk.com'' []))) \<and>
   navTrace abortedOut ''https://www.spacenk.com'' 5000
     (take 2 (drop 9 (snd (scrapeUrl offlineEnv ''https://www.spacenk.com'' []))))
     (drop 11 (snd (scrapeUrl offlineEnv ''https://www.spacenk.com'' [])))
     (fst (scrapeUrl offlineEnv ''https://www.spacenk.com'' [])) \<and>
   take 12 (snd (scrapeUrl busyEnv ''https://www.spacenk.com'' [])) =
      [(Mkdir ''/work/output/www-spacenk-com/html'', Ret ()),
       (Mkdir ''/work/output/www-spacenk-com/screenshots'', Ret ()),
       (ReadClock, Ret ()), (Launch, Ret ()), (MathRandom, Ret ()), (NewContext, Ret ()),
       (AddInitScript, Ret ()), (NewPage, Ret ()),
       (SetExtraHTTPHeaders ''https://www.spacenk.com'', Ret ())] @
      [(Goto ''https://www.spacenk.com'' networkidle 15000, Throw (Error ''Timeout 15000ms exceeded'')),
       (Goto ''https://www.spacenk.com'' domcontentloaded 30000, Ret ()),
       (WaitForTimeout 5000, Ret ())]"
  using C1_navigation_fallback[of offlineEnv "''https://www.spacenk.com''" "[]" "''www-spacenk-com''"]
  by (simp add: run_defs crop_defs scrape_defs offlineEnv_fields busyEnv_fields twoComponents_def
      componentsOf_def returned_def)


section \<open>Dismissing interstitials\<close>

text \<open>
  On a page where no candidate is ever visible the loop leaves the counter alone; the
  Escape key press that follows is counted.
\<close>

lemma dismissOne_invisible:
  assumes "\<And>h s. \<not> visible E h s"
  shows "fst (dismissOne E s n h) = Ret n \<or> fst (dismissOne E s n h) = Hang"
  using assms by (cases "reply E h (IsVisible s)")
    (simp_all add: dismissOne_def tryCatch_def seq_def performWith_def ret_def)

lemma dismissLoop_invisible:
  assumes "\<And>h s. \<not> visible E h s"
  shows "fst (dismissLoop E ss n h) = Ret n \<or> fst (dismissLoop E ss n h) = Hang"
proof (induction ss arbitrary: h)
  case Nil
  show ?case by (simp add: ret_def)
next
  case (Cons s ss)
  obtain r h1 where d: "dismissOne E s n h = (r, h1)" by (cases "dismissOne E s n h")
  with dismissOne_invisible[OF assms, of s n h] have "r = Ret n \<or> r = Hang" by simp
  then show ?case
  proof
    assume "r = Ret n"
    with d Cons[of h1] show ?thesis by (simp add: seq_def)
  next
    assume "r = Hang"
    with d show ?thesis by (simp add: seq_def)
  qed
qed

lemma dismissModals_nothing_visible:
  assumes "\<And>h s. \<not> visible E h s" and "\<And>h c. reply E h c = Ret ()"
  shows "fst (dismissModals E h) = Ret 1"
proof -
  let ?h1 = "h @ [(WaitForTimeout 2000, Ret ())]"
  obtain r h2 where l: "dismissLoop E dismissSelectors 0 ?h1 = (r, h2)"
    by (cases "dismissLoop E dismissSelectors 0 ?h1")
  have nohang: "\<And>ss n h. fst (dismissLoop E ss n h) \<noteq> Hang"
  proof -
    fix ss n h
    show "fst (dismissLoop E ss n h) \<noteq> Hang"
    proof (induction ss arbitrary: n h)
      case Nil
      show ?case by (simp add: ret_def)
    next
      case (Cons s ss)
      have "fst (dismissOne E s n h) = Ret n"
        using assms by (simp add: dismissOne_def tryCatch_def seq_def performWith_def ret_def)
      then obtain h1 where "dismissOne E s n h = (Ret n, h1)" by (cases "dismissOne E s n h") auto
      with Cons[of n h1] show ?case by (simp add: seq_def)
    qed
  qed
  from dismissLoop_invisible[OF assms(1), of dismissSelectors 0 ?h1] nohang[of dismissSelectors 0 ?h1] l
  have "r = Ret 0" by auto
  with l assms(2) show ?thesis
    by (simp add: dismissModals_def pressEscape_def seq_def tryCatch_def perform_def ret_def)
qed

text \<open>
  On any platform the scan catches what its calls throw: only the wait before the loop,
  which stands outside every \<^verbatim>\<open>try\<close>, can make it throw.
\<close>

lemma dismissOne_never_throws: "\<not> isThrow (fst (dismissOne E s n h))"
  by (simp add: dismissOne_def tryCatch_def seq_def performWith_def perform_def ret_def
      split: res.splits)

lemma dismissLoop_never_throws: "\<not> isThrow (fst (dismissLoop E ss n h))"
proof (induction ss arbitrary: n h)
  case Nil
  show ?case by (simp add: ret_def)
next
  case (Cons s ss)
  obtain r h1 where d: "dismissOne E s n h = (r, h1)" by (cases "dismissOne E s n h")
  with dismissOne_never_throws[of E s n h] Cons[of _ h1] show ?case
    by (cases r) (simp_all add: seq_def)
qed

lemma dismissModals_throws_only_first_wait:
  assumes "\<not> isThrow (reply E h (WaitForTimeout 2000))"
  shows "\<not> isThrow (fst (dismissModals E h))"
proof (cases "reply E h (WaitForTimeout 2000)")
  case (Ret x)
  let ?h1 = "h @ [(WaitForTimeout 2000, Ret ())]"
  obtain r h2 where l: "dismissLoop E dismissSelectors 0 ?h1 = (r, h2)"
    by (cases "dismissLoop E dismissSelectors 0 ?h1")
  with dismissLoop_never_throws[of E dismissSelectors 0 ?h1] have nt: "\<not> isThrow r" by simp
  have "\<And>n. \<not> isThrow (fst (pressEscape E n h2))"
    by (simp add: pressEscape_def tryCatch_def seq_def perform_def ret_def split: res.splits)
  with Ret l nt show ?thesis
    by (cases r) (simp_all add: dismissModals_def seq_def perform_def)
next
  case (Throw e)
  with assms show ?thesis by simp
next
  case Hang
  then show ?thesis by (simp add: dismissModals_def seq_def perform_def)
qed

text \<open>
  C2 holds in that the scan raises no error, and fails in the count: on a platform where
  every call completes and no candidate selector is ever visible, \<open>dismissModals\<close>
  clicks nothing and ends with its counter at 1, so it prints
  \<^verbatim>\<open>Dismissed 1 modal(s)/popup(s)\<close> and not \<^verbatim>\<open>No modals detected\<close>.
\<close>

theorem C2_escape_press_is_counted:
  "fst (dismissModals quietEnv []) = Ret 1 \<and>
   filter (\<lambda>ev. case fst ev of Click s n \<Rightarrow> True | _ \<Rightarrow> False) (snd (dismissModals quietEnv [])) = []"
  by (simp add: run_defs crop_defs quietEnv_fields)

section \<open>Cropping the components\<close>












section \<open>Closing the browser\<close>

text \<open>
  \<^verbatim>\<open>scrapeUrl\<close> creates the context inside its \<^verbatim>\<open>try\<close>: once the launch has
  completed, every run that ends has closed the browser last.
\<close>

lemma emits_scrapeBody: "emits (\<lambda>c. True) (scrapeBody E u d)"
  unfolding scrapeBody_def
  by (intro emits_intros emits_createStealthContext emits_originOf emits_waitForLoad
      emits_generateFilenameNow emits_navigate emits_weaken[OF emits_prepare]) simp_all

lemma emits_cropBody: "emits (\<lambda>c. True) (cropBody E u dir cs)"
  unfolding cropBody_def
  by (intro emits_intros emits_waitForLoad emits_navigate emits_weaken[OF emits_prepare]
      emits_weaken[OF emits_cropLoop]) simp_all

lemma tryFinally_closes:
  assumes "emits Q p" and "fst (tryFinally p (perform E c) h) \<noteq> Hang"
  shows "\<exists>t r. snd (tryFinally p (perform E c) h) = h @ t @ [(c, r)]"
proof -
  obtain r h1 where ph: "p h = (r, h1)" by (cases "p h")
  from emitsD[OF assms(1), of h] ph obtain t where t: "h1 = h @ t" by auto
  from assms(2) ph have "r \<noteq> Hang" by (auto simp: tryFinally_def)
  then have "snd (tryFinally p (perform E c) h) = h1 @ [(c, reply E h1 c)]"
    using ph by (cases r; cases "reply E h1 c") (simp_all add: tryFinally_def perform_def)
  with t show ?thesis by simp
qed

lemma scrapeUrl_closes_browser:
  assumes "snd (scrapeUrl E u h) = h @ t" and "(Launch, Ret ()) \<in> set t"
    and "fst (scrapeUrl E u h) \<noteq> Hang"
  shows "\<exists>t' r. t = t' @ [(BrowserClose, r)]"
proof (cases "getDomainFolder (newURL E) u")
  case (Inl e)
  with assms(1,2) show ?thesis by (simp add: scrapeUrl_def liftE_def seq_def throw_def)
next
  case (Inr d)
  let ?m1 = "Mkdir (joinPath [cwd E, ''output'', d, ''html''])"
  let ?m2 = "Mkdir (joinPath [cwd E, ''output'', d, ''screenshots''])"
  let ?h1 = "h @ [(?m1, Ret ())]"
  let ?h2 = "?h1 @ [(?m2, Ret ())]"
  let ?h3 = "?h2 @ [(ReadClock, Ret ())]"
  let ?h4 = "?h3 @ [(Launch, Ret ())]"
  let ?tf = "tryFinally (scrapeBody E u d) (perform E BrowserClose)"
  have pre: "reply E h ?m1 = Ret () \<and> reply E ?h1 ?m2 = Ret () \<and> reply E ?h3 Launch = Ret ()"
  proof (rule ccontr)
    assume "\<not> ?thesis"
    then consider "reply E h ?m1 \<noteq> Ret ()" |
      "reply E h ?m1 = Ret ()" "reply E ?h1 ?m2 \<noteq> Ret ()" |
      "reply E h ?m1 = Ret ()" "reply E ?h1 ?m2 = Ret ()" "reply E ?h3 Launch \<noteq> Ret ()"
      by blast
    then show False
    proof cases
      case 1
      with assms(1,2) Inr show False
        by (cases "reply E h ?m1")
          (auto simp: scrapeUrl_def liftE_def seq_def ret_def ensureOutputDirectories_def perform_def)
    next
      case 2
      with assms(1,2) Inr show False
        by (cases "reply E ?h1 ?m2")
          (auto simp: scrapeUrl_def liftE_def seq_def ret_def ensureOutputDirectories_def perform_def)
    next
      case 3
      with assms(1,2) Inr show False
        by (cases "reply E ?h3 Launch")
          (auto simp: scrapeUrl_def liftE_def seq_def ret_def ensureOutputDirectories_def perform_def
            readClock_def createStealthBrowser_def)
    qed
  qed
  then have run: "scrapeUrl E u h = ?tf ?h4"
    using Inr
    by (simp add: scrapeUrl_def liftE_def seq_def ret_def ensureOutputDirectories_def perform_def
          readClock_def createStealthBrowser_def tryCatch_rethrow)
  with assms(3) have "fst (?tf ?h4) \<noteq> Hang" by simp
  from tryFinally_closes[OF emits_scrapeBody this] obtain t2 r where
    "snd (?tf ?h4) = ?h4 @ t2 @ [(BrowserClose, r)]" by blast
  with run assms(1) have "t = ([(?m1, Ret ()), (?m2, Ret ()), (ReadClock, Ret ()), (Launch, Ret ())] @ t2) @ [(BrowserClose, r)]"
    by simp
  then show ?thesis by blast
qed

text \<open>
  \<^verbatim>\<open>crop\<close> closes the browser last as well, once the context has been created.
\<close>

lemma crop_closes_browser:
  assumes "snd (crop E subfolder h) = h @ t" and "(AddInitScript, Ret ()) \<in> set t"
    and "fst (crop E subfolder h) \<noteq> Hang"
  shows "\<exists>t' r. t = t' @ [(BrowserClose, r)]"
proof -
  let ?lm = "LoadManifest (joinPath [cwd E, ''output'', subfolder, ''analysis'', ''manifest.json''])"
  let ?dir = "joinPath [cwd E, ''output'', subfolder, ''analysis'']"
  let ?u = "''https://'' @ subfolderToHostname subfolder"
  let ?h1 = "h @ [(?lm, Ret ())]"
  let ?cs = "case components (parsed E h) of None \<Rightarrow> [] | Some l \<Rightarrow> l"
  let ?h2 = "?h1 @ [(Mkdir ?dir, Ret ())]"
  let ?h3 = "?h2 @ [(Launch, Ret ())]"
  let ?h4 = "?h3 @ [(MathRandom, Ret ())]"
  let ?h5 = "?h4 @ [(NewContext, Ret ())]"
  let ?h6 = "?h5 @ [(AddInitScript, Ret ())]"
  let ?tf = "tryFinally (cropBody E ?u ?dir ?cs) (perform E BrowserClose)"
  have pre: "reply E h ?lm = Ret () \<and> length ?cs \<noteq> 0 \<and> reply E ?h1 (Mkdir ?dir) = Ret () \<and>
      reply E ?h2 Launch = Ret () \<and> reply E ?h4 NewContext = Ret () \<and>
      reply E ?h5 AddInitScript = Ret ()"
  proof (rule ccontr)
    assume "\<not> ?thesis"
    then consider "reply E h ?lm \<noteq> Ret ()" |
      "reply E h ?lm = Ret ()" "length ?cs = 0" |
      "reply E h ?lm = Ret ()" "length ?cs \<noteq> 0" "reply E ?h1 (Mkdir ?dir) \<noteq> Ret ()" |
      "reply E h ?lm = Ret ()" "length ?cs \<noteq> 0" "reply E ?h1 (Mkdir ?dir) = Ret ()"
        "reply E ?h2 Launch \<noteq> Ret ()" |
      "reply E h ?lm = Ret ()" "length ?cs \<noteq> 0" "reply E ?h1 (Mkdir ?dir) = Ret ()"
        "reply E ?h2 Launch = Ret ()" "reply E ?h4 NewContext \<noteq> Ret ()" |
      "reply E h ?lm = Ret ()" "length ?cs \<noteq> 0" "reply E ?h1 (Mkdir ?dir) = Ret ()"
        "reply E ?h2 Launch = Ret ()" "reply E ?h4 NewContext = Ret ()"
        "reply E ?h5 AddInitScript \<noteq> Ret ()"
      by blast
    then show False
    proof cases
      case 1
      with assms(1,2) show False
        by (cases "reply E h ?lm")
          (auto simp: crop_def loadManifest_def seq_def performWith_def)
    next
      case 2
      with assms(1,2) show False
        by (auto simp: crop_def loadManifest_def seq_def performWith_def ret_def Let_def)
    next
      case 3
      with assms(1,2) show False
        by (cases "reply E ?h1 (Mkdir ?dir)")
          (auto simp: crop_def loadManifest_def seq_def performWith_def perform_def Let_def)
    next
      case 4
      with assms(1,2) show False
        by (cases "reply E ?h2 Launch")
          (auto simp: crop_def loadManifest_def seq_def performWith_def perform_def Let_def
            createStealthBrowser_def)
    next
      case 5
      with assms(1,2) show False
        by (cases "reply E ?h4 NewContext")
          (auto simp: crop_def loadManifest_def seq_def performWith_def perform_def Let_def
            createStealthBrowser_def createStealthContext_def mathRandom_def)
    next
      case 6
      with assms(1,2) show False
        by (cases "reply E ?h5 AddInitScript")
          (auto simp: crop_def loadManifest_def seq_def performWith_def perform_def Let_def
            createStealthBrowser_def createStealthContext_def mathRandom_def)
    qed
  qed
  then have run: "crop E subfolder h = ?tf ?h6"
    by (simp add: crop_def loadManifest_def seq_def performWith_def perform_def Let_def
          createStealthBrowser_def createStealthContext_def mathRandom_def)
  with assms(3) have "fst (?tf ?h6) \<noteq> Hang" by simp
  from tryFinally_closes[OF emits_cropBody this] obtain t2 r where
    "snd (?tf ?h6) = ?h6 @ t2 @ [(BrowserClose, r)]" by blast
  with run assms(1) have "t = ([(?lm, Ret ()), (Mkdir ?dir, Ret ()), (Launch, Ret ()),
      (MathRandom, Ret ()), (NewContext, Ret ()), (AddInitScript, Ret ())] @ t2) @ [(BrowserClose, r)]"
    by simp
  then show ?thesis by blast
qed

text \<open>
  C7 fails for \<^verbatim>\<open>crop\<close>, which creates the context before its \<^verbatim>\<open>try\<close>: when
  creating the context throws, the launched browser is never closed. The whole run:
\<close>

theorem C7_crop_leaves_browser_open:
  "crop noContextEnv ''www-spacenk-com'' [] =
     (Throw (Error ''Target closed''),
      [(LoadManifest ''/work/output/www-spacenk-com/analysis/manifest.json'', Ret ()),
       (Mkdir ''/work/output/www-spacenk-com/analysis'', Ret ()),
       (Launch, Ret ()), (MathRandom, Ret ()),
       (NewContext, Throw (Error ''Target closed''))]) \<and>
   BrowserClose \<notin> fst ` set (snd (crop noContextEnv ''www-spacenk-com'' []))"
  by (simp add: run_defs crop_defs noContextEnv_fields twoComponents_def)

section \<open>Capturing several URLs\<close>














section \<open>The calendar\<close>

text \<open>
  \<open>YearFromDay\<close> computes the year the standard defines: the largest year that starts on
  or before the day.
\<close>

lemma div_step:
  fixes x n :: int
  assumes "0 < n"
  shows "(x + 1) div n = x div n + (if n dvd x + 1 then 1 else 0)"
proof -
  define q where "q = x div n"
  define r where "r = x mod n"
  have x: "x = n * q + r" "0 \<le> r" "r < n"
    using assms by (simp_all add: q_def r_def)
  show ?thesis
  proof (cases "r + 1 < n")
    case True
    have e: "x + 1 = n * q + (r + 1)" using x(1) by simp
    have r1: "0 \<le> r + 1" using x(2) by simp
    have "(x + 1) div n = q" by (rule int_div_pos_eq[OF e r1 True])
    moreover have "(x + 1) mod n = r + 1" by (rule int_mod_pos_eq[OF e r1 True])
    then have "\<not> n dvd x + 1" using x(2) by (simp add: dvd_eq_mod_eq_0)
    ultimately show ?thesis by (simp add: q_def)
  next
    case False
    with x have rn: "r + 1 = n" by simp
    have e: "x + 1 = n * (q + 1) + 0" using x(1) rn by (simp add: algebra_simps)
    have "(x + 1) div n = q + 1" by (rule int_div_pos_eq[OF e]) (use assms in simp_all)
    moreover have "n dvd x + 1" using e by simp
    ultimately show ?thesis by (simp add: q_def)
  qed
qed

lemma DaysInYear_dvd:
  "DaysInYear y = 365 + (if 4 dvd y then 1 else 0) - (if 100 dvd y then 1 else 0)
          + (if 400 dvd y then 1 else 0)"
proof -
  have d1: "(100::int) dvd y \<Longrightarrow> 4 dvd y" by (rule dvd_trans[of 4 100]) simp_all
  have d2: "(400::int) dvd y \<Longrightarrow> 100 dvd y" by (rule dvd_trans[of 100 400]) simp_all
  show ?thesis
    using d1 d2
    by (cases "(4::int) dvd y"; cases "(100::int) dvd y"; cases "(400::int) dvd y")
       (simp_all add: DaysInYear_def mod_eq_0_iff_dvd)
qed

lemma DayFromYear_Suc: "DayFromYear (y + 1) = DayFromYear y + DaysInYear y"
proof -
  have a: "(y + 1 - 1969) div 4 = (y - 1969) div 4 + (if 4 dvd y then 1 else 0)"
  proof -
    have "(4::int) dvd y - 1968 \<longleftrightarrow> 4 dvd y" by (rule dvd_diff_left_iff) simp
    with div_step[of 4 "y - 1969"] show ?thesis by (simp add: algebra_simps)
  qed
  have b: "(y + 1 - 1901) div 100 = (y - 1901) div 100 + (if 100 dvd y then 1 else 0)"
  proof -
    have "(100::int) dvd y - 1900 \<longleftrightarrow> 100 dvd y" by (rule dvd_diff_left_iff) simp
    with div_step[of 100 "y - 1901"] show ?thesis by (simp add: algebra_simps)
  qed
  have c: "(y + 1 - 1601) div 400 = (y - 1601) div 400 + (if 400 dvd y then 1 else 0)"
  proof -
    have "(400::int) dvd y - 1600 \<longleftrightarrow> 400 dvd y" by (rule dvd_diff_left_iff) simp
    with div_step[of 400 "y - 1601"] show ?thesis by (simp add: algebra_simps)
  qed
  have "DayFromYear (y + 1) = 365 * (y - 1970) + 365 + (y + 1 - 1969) div 4
      - (y + 1 - 1901) div 100 + (y + 1 - 1601) div 400"
    by (simp add: DayFromYear_def algebra_simps)
  then show ?thesis unfolding a b c DaysInYear_dvd by (simp add: DayFromYear_def)
qed

lemma DaysInYear_range: "365 \<le> DaysInYear y" "DaysInYear y \<le> 366"
  by (simp_all add: DaysInYear_def)

lemma DayFromYear_less_aux: "DayFromYear y < DayFromYear (y + 1 + int n)"
proof (induction n)
  case 0
  show ?case using DayFromYear_Suc[of y] DaysInYear_range(1)[of y] by simp
next
  case (Suc n)
  have "DayFromYear (y + 1 + int (Suc n)) = DayFromYear ((y + 1 + int n) + 1)"
    by (simp add: algebra_simps)
  with Suc DayFromYear_Suc[of "y + 1 + int n"] DaysInYear_range(1)[of "y + 1 + int n"]
  show ?case by linarith
qed

lemma DayFromYear_strict_mono: "y < y' \<Longrightarrow> DayFromYear y < DayFromYear y'"
  using DayFromYear_less_aux[of y "nat (y' - y - 1)"] by simp

lemma DayFromYear_mono: "y \<le> y' \<Longrightarrow> DayFromYear y \<le> DayFromYear y'"
  using DayFromYear_strict_mono[of y y'] by (cases "y = y'") auto

lemma div_bounds:
  fixes x n :: int
  assumes "0 < n"
  shows "n * (x div n) \<le> x" "x < n * (x div n) + n"
proof -
  have "x = n * (x div n) + x mod n" by simp
  moreover have "0 \<le> x mod n" "x mod n < n" using assms by simp_all
  ultimately show "n * (x div n) \<le> x" "x < n * (x div n) + n" by linarith+
qed

lemma DayFromYear_estimate:
  "146097 * k - 506 \<le> 400 * DayFromYear (1970 + k)"
  "400 * DayFromYear (1970 + k) \<le> 146097 * k + 589"
proof -
  define a where "a = (k + 1) div 4"
  define b where "b = (k + 69) div 100"
  define c where "c = (k + 369) div 400"
  have a: "4 * a \<le> k + 1" "k + 1 \<le> 4 * a + 3"
    unfolding a_def using div_bounds[of 4 "k + 1"] by simp_all
  have b: "100 * b \<le> k + 69" "k + 69 \<le> 100 * b + 99"
    unfolding b_def using div_bounds[of 100 "k + 69"] by simp_all
  have c: "400 * c \<le> k + 369" "k + 369 \<le> 400 * c + 399"
    unfolding c_def using div_bounds[of 400 "k + 369"] by simp_all
  have d: "DayFromYear (1970 + k) = 365 * k + a - b + c"
    by (simp add: DayFromYear_def a_def b_def c_def add.commute)
  show "146097 * k - 506 \<le> 400 * DayFromYear (1970 + k)" using a b c d by linarith
  show "400 * DayFromYear (1970 + k) \<le> 146097 * k + 589" using a b c d by linarith
qed

lemma YearFromDay_bounds:
  "DayFromYear (YearFromDay d) \<le> d" "d < DayFromYear (YearFromDay d + 1)"
proof -
  define k where "k = (400 * d) div 146097"
  have k: "146097 * k \<le> 400 * d" "400 * d < 146097 * k + 146097"
    unfolding k_def using div_bounds[of 146097 "400 * d"] by simp_all
  have lo: "DayFromYear (1970 + k - 1) \<le> d"
    using DayFromYear_estimate(2)[of "k - 1"] k by (simp add: algebra_simps)
  have hi: "d < DayFromYear (1970 + k + 2)"
    using DayFromYear_estimate(1)[of "k + 2"] k by (simp add: algebra_simps)
  have y: "YearFromDay d =
     (if d < DayFromYear (1970 + k) then 1970 + k - 1
      else if DayFromYear (1970 + k + 1) \<le> d then 1970 + k + 1 else 1970 + k)"
    by (simp add: YearFromDay_def k_def Let_def)
  show "DayFromYear (YearFromDay d) \<le> d" using lo y by auto
  show "d < DayFromYear (YearFromDay d + 1)" using hi y by (auto simp: algebra_simps)
qed

lemma YearFromDay_mono:
  assumes "d \<le> d'"
  shows "YearFromDay d \<le> YearFromDay d'"
proof (rule ccontr)
  assume "\<not> YearFromDay d \<le> YearFromDay d'"
  then have "YearFromDay d' + 1 \<le> YearFromDay d" by simp
  from DayFromYear_mono[OF this] YearFromDay_bounds(2)[of d'] YearFromDay_bounds(1)[of d] assms
  show False by linarith
qed

text \<open>Within a year the month and the date grow with the day; within a day the clock grows.\<close>

lemma month_date_lex:
  assumes "YearFromTime t1 = YearFromTime t2" and "Day t1 < Day t2"
  shows "MonthFromTime t1 < MonthFromTime t2 \<or>
         (MonthFromTime t1 = MonthFromTime t2 \<and> DateFromTime t1 < DateFromTime t2)"
proof -
  define d1 where "d1 = DayWithinYear t1"
  define d2 where "d2 = DayWithinYear t2"
  define l where "l = InLeapYear t1"
  have l2: "InLeapYear t2 = l" using assms(1) by (simp add: l_def InLeapYear_def)
  have d: "d1 < d2" using assms by (simp add: d1_def d2_def DayWithinYear_def)
  show ?thesis
    unfolding MonthFromTime_def DateFromTime_def Let_def l2 l_def[symmetric] d1_def[symmetric] d2_def[symmetric]
    using d by (simp; linarith)
qed

lemma mod_lex:
  fixes a b n :: int
  assumes "0 < n" "a \<le> b" "a div n = b div n"
  shows "a mod n \<le> b mod n" "a mod n = b mod n \<Longrightarrow> a = b"
proof -
  have a: "a = n * (a div n) + a mod n" by simp
  have b: "b = n * (b div n) + b mod n" by simp
  show "a mod n \<le> b mod n" using a b assms by (metis add_le_cancel_left)
  show "a mod n = b mod n \<Longrightarrow> a = b" using a b assms(3) by metis
qed

lemma time_of_day_lex:
  assumes "t1 < t2" and "Day t1 = Day t2"
  shows "HourFromTime t1 < HourFromTime t2 \<or> (HourFromTime t1 = HourFromTime t2 \<and>
          (MinFromTime t1 < MinFromTime t2 \<or> (MinFromTime t1 = MinFromTime t2 \<and>
            (SecFromTime t1 < SecFromTime t2 \<or> (SecFromTime t1 = SecFromTime t2 \<and>
               msFromTime t1 < msFromTime t2)))))"
proof -
  have le: "t1 \<le> t2" using assms(1) by simp
  have H: "t1 div 3600000 \<le> t2 div 3600000" using le by (simp add: zdiv_mono1)
  have Mi: "t1 div 60000 \<le> t2 div 60000" using le by (simp add: zdiv_mono1)
  have S: "t1 div 1000 \<le> t2 div 1000" using le by (simp add: zdiv_mono1)
  have dH: "\<And>t::int. t div 86400000 = (t div 3600000) div 24"
    using zdiv_zmult2_eq[of 24 _ 3600000] by simp
  have dM: "\<And>t::int. t div 3600000 = (t div 60000) div 60"
    using zdiv_zmult2_eq[of 60 _ 60000] by simp
  have dS: "\<And>t::int. t div 60000 = (t div 1000) div 60"
    using zdiv_zmult2_eq[of 60 _ 1000] by simp
  have day: "(t1 div 3600000) div 24 = (t2 div 3600000) div 24"
    using assms(2) by (simp add: Day_def msPerDay_def dH)
  note h = mod_lex[OF _ H day, simplified]
  show ?thesis
  proof (cases "HourFromTime t1 = HourFromTime t2")
    case False
    with h(1) show ?thesis by (simp add: HourFromTime_def)
  next
    case True
    then have Heq: "t1 div 3600000 = t2 div 3600000" using h(2) by (simp add: HourFromTime_def)
    then have "(t1 div 60000) div 60 = (t2 div 60000) div 60" by (simp add: dM)
    note m = mod_lex[OF _ Mi this, simplified]
    show ?thesis
    proof (cases "MinFromTime t1 = MinFromTime t2")
      case False
      with m(1) True show ?thesis by (simp add: MinFromTime_def)
    next
      case mt: True
      then have Meq: "t1 div 60000 = t2 div 60000" using m(2) by (simp add: MinFromTime_def)
      then have "(t1 div 1000) div 60 = (t2 div 1000) div 60" by (simp add: dS)
      note s = mod_lex[OF _ S this, simplified]
      show ?thesis
      proof (cases "SecFromTime t1 = SecFromTime t2")
        case False
        with s(1) True mt show ?thesis by (simp add: SecFromTime_def)
      next
        case st: True
        then have Seq: "t1 div 1000 = t2 div 1000" using s(2) by (simp add: SecFromTime_def)
        have "t1 mod 1000 \<noteq> t2 mod 1000"
          using mod_lex(2)[of 1000 t1 t2] Seq le assms(1) by auto
        with mod_lex(1)[of 1000 t1 t2] Seq le have "msFromTime t1 < msFromTime t2"
          by (simp add: msFromTime_def)
        with True mt st show ?thesis by simp
      qed
    qed
  qed
qed

lemma time_ranges:
  "0 \<le> HourFromTime t" "HourFromTime t < 24" "0 \<le> MinFromTime t" "MinFromTime t < 60"
  "0 \<le> SecFromTime t" "SecFromTime t < 60" "0 \<le> msFromTime t" "msFromTime t < 1000"
  by (simp_all add: HourFromTime_def MinFromTime_def SecFromTime_def msFromTime_def)

lemma DayWithinYear_range: "0 \<le> DayWithinYear t" "DayWithinYear t \<le> 365"
proof -
  show "0 \<le> DayWithinYear t"
    using YearFromDay_bounds(1)[of "Day t"] by (simp add: DayWithinYear_def YearFromTime_def)
  show "DayWithinYear t \<le> 365"
    using YearFromDay_bounds(2)[of "Day t"] DayFromYear_Suc[of "YearFromDay (Day t)"]
      DaysInYear_range(2)[of "YearFromDay (Day t)"]
    by (simp add: DayWithinYear_def YearFromTime_def)
qed

lemma InLeapYear_range: "InLeapYear t = 0 \<or> InLeapYear t = 1"
  by (simp add: InLeapYear_def)

lemma month_range: "0 \<le> MonthFromTime t" "MonthFromTime t \<le> 11"
  by (simp_all add: MonthFromTime_def Let_def)

lemma date_range: "1 \<le> DateFromTime t" "DateFromTime t \<le> 99"
proof -
  define d where "d = DayWithinYear t"
  define l where "l = InLeapYear t"
  have d: "0 \<le> d" "d \<le> 365" using DayWithinYear_range[of t] by (simp_all add: d_def)
  have l: "l = 0 \<or> l = 1" using InLeapYear_range[of t] by (simp add: l_def)
  show "1 \<le> DateFromTime t"
    unfolding DateFromTime_def MonthFromTime_def Let_def d_def[symmetric] l_def[symmetric]
    using d l by (simp; linarith)
  show "DateFromTime t \<le> 99"
    unfolding DateFromTime_def MonthFromTime_def Let_def d_def[symmetric] l_def[symmetric]
    using d l by (simp; linarith)
qed

section \<open>Zero-padded numbers and the order of strings\<close>

lemma append_less_eq_len:
  fixes xs ys :: "'a::linorder list"
  assumes "length xs = length ys"
  shows "xs @ u < ys @ v \<longleftrightarrow> xs < ys \<or> (xs = ys \<and> u < v)"
  using assms by (induction xs ys rule: list_induct2) auto

lemma append_same_less:
  fixes xs :: "'a::linorder list"
  shows "xs @ u < xs @ v \<longleftrightarrow> u < v"
  by (simp add: append_less_eq_len)

lemma digits_length [simp]: "length (digits w n) = w"
  by (induction w arbitrary: n) simp_all

lemma digit_less_iff: "a < 10 \<Longrightarrow> b < 10 \<Longrightarrow> digit a < digit b \<longleftrightarrow> a < b"
  by (simp add: digit_def less_char_def)

lemma digit_eq_iff: "a < 10 \<Longrightarrow> b < 10 \<Longrightarrow> digit a = digit b \<longleftrightarrow> a = b"
  by (auto simp: digit_def dest!: arg_cong[where f = "of_char :: char \<Rightarrow> nat"])

lemma digit_mod: "digit n = digit (n mod 10)"
  by (simp add: digit_def)

lemma base10_lex:
  fixes a b :: nat
  shows "a < b \<longleftrightarrow> a div 10 < b div 10 \<or> (a div 10 = b div 10 \<and> a mod 10 < b mod 10)"
    and "a = b \<longleftrightarrow> a div 10 = b div 10 \<and> a mod 10 = b mod 10"
proof -
  define A where "A = a div 10"
  define B where "B = b div 10"
  define r where "r = a mod 10"
  define s where "s = b mod 10"
  have a: "a = 10 * A + r" and b: "b = 10 * B + s" by (simp_all add: A_def B_def r_def s_def)
  have r: "r < 10" and s: "s < 10" by (simp_all add: r_def s_def)
  show "a < b \<longleftrightarrow> A < B \<or> (A = B \<and> r < s)" using a b r s by linarith
  show "a = b \<longleftrightarrow> A = B \<and> r = s" using a b r s by presburger
qed

lemma digits_less_eq:
  "a < 10 ^ w \<Longrightarrow> b < 10 ^ w \<Longrightarrow>
   (digits w a < digits w b \<longleftrightarrow> a < b) \<and> (digits w a = digits w b \<longleftrightarrow> a = b)"
proof (induction w arbitrary: a b)
  case 0
  then show ?case by simp
next
  case (Suc w)
  have a: "a div 10 < 10 ^ w" and b: "b div 10 < 10 ^ w"
    using Suc.prems by (simp_all add: less_mult_imp_div_less mult.commute)
  note IH = Suc.IH[OF a b]
  have da: "digit a = digit (a mod 10)" and db: "digit b = digit (b mod 10)"
    by (rule digit_mod)+
  have dl: "digit a < digit b \<longleftrightarrow> a mod 10 < b mod 10"
    unfolding da db by (rule digit_less_iff) simp_all
  have de: "digit a = digit b \<longleftrightarrow> a mod 10 = b mod 10"
    unfolding da db by (rule digit_eq_iff) simp_all
  have "digits (Suc w) a < digits (Suc w) b \<longleftrightarrow>
      a div 10 < b div 10 \<or> (a div 10 = b div 10 \<and> a mod 10 < b mod 10)"
    using IH dl by (simp add: append_less_eq_len)
  moreover have "digits (Suc w) a = digits (Suc w) b \<longleftrightarrow>
      a div 10 = b div 10 \<and> a mod 10 = b mod 10"
    using IH de by simp
  ultimately show ?case using base10_lex[of a b] by blast
qed

lemma block_less:
  assumes "a < 10 ^ w" "b < 10 ^ w" "a < b \<or> (a = b \<and> x < y)"
  shows "digits w a @ x < digits w b @ y"
  using digits_less_eq[OF assms(1,2)] assms(3) by (auto simp: append_less_eq_len)

lemma of_char_digit: "of_char (digit n) = 48 + n mod 10"
  by (simp add: digit_def)

lemma digit_bounds: "CHR ''0'' \<le> digit n" "digit n \<le> CHR ''9''"
  using mod_less_divisor[of 10 n] by (simp_all add: less_eq_char_def of_char_digit)

lemma digit_neq:
  "digit n \<noteq> CHR '':''" "digit n \<noteq> CHR ''.''" "digit n \<noteq> CHR ''+''" "digit n \<noteq> CHR ''/''"
  using digit_bounds[of n] by (auto simp: less_eq_char_def)

lemma dash_digits: "dashTimestamp (digits w n) = digits w n"
  by (induction w arbitrary: n) (simp_all add: dashTimestamp_def digit_neq)

lemma isSafeChar_digit: "isSafeChar (digit n)"
  using digit_bounds[of n] by (simp add: isSafeChar_def)

lemma isSafeChar_digits: "list_all isSafeChar (digits w n)"
  by (induction w arbitrary: n) (simp_all add: isSafeChar_digit)

section \<open>Time stamps\<close>

lemma dash_append: "dashTimestamp (a @ b) = dashTimestamp a @ dashTimestamp b"
  by (simp add: dashTimestamp_def)

lemma dash_isoYear: "dashTimestamp (isoYear y) = isoYear y"
  by (simp add: isoYear_def dash_digits) (simp add: dashTimestamp_def dash_digits[unfolded dashTimestamp_def])

lemma dashed_toISOString:
  "dashTimestamp (toISOString t) =
     isoYear (YearFromTime t) @ ''-'' @ digits 2 (nat (MonthFromTime t + 1)) @ ''-'' @
     digits 2 (nat (DateFromTime t)) @ ''T'' @ digits 2 (nat (HourFromTime t)) @ ''-'' @
     digits 2 (nat (MinFromTime t)) @ ''-'' @ digits 2 (nat (SecFromTime t)) @ ''-'' @
     digits 3 (nat (msFromTime t)) @ ''Z''"
proof -
  have lit: "dashTimestamp ''-'' = ''-''" "dashTimestamp ''T'' = ''T''" "dashTimestamp '':'' = ''-''"
    "dashTimestamp ''.'' = ''-''" "dashTimestamp ''Z'' = ''Z''"
    by (simp_all add: dashTimestamp_def)
  show ?thesis
    unfolding toISOString_def dash_append dash_digits dash_isoYear lit ..
qed

lemma timeOfDay_less:
  assumes "t1 < t2" and "Day t1 = Day t2"
  shows "timeOfDay t1 < timeOfDay t2"
proof -
  note r1 = time_ranges[of t1] and r2 = time_ranges[of t2]
  from time_of_day_lex[OF assms] r1 r2
  have lex: "nat (HourFromTime t1) < nat (HourFromTime t2) \<or>
      (nat (HourFromTime t1) = nat (HourFromTime t2) \<and>
        (nat (MinFromTime t1) < nat (MinFromTime t2) \<or>
          (nat (MinFromTime t1) = nat (MinFromTime t2) \<and>
            (nat (SecFromTime t1) < nat (SecFromTime t2) \<or>
              (nat (SecFromTime t1) = nat (SecFromTime t2) \<and>
                 nat (msFromTime t1) < nat (msFromTime t2))))))"
    by auto
  have b: "nat (HourFromTime t1) < 10 ^ 2" "nat (HourFromTime t2) < 10 ^ 2"
     "nat (MinFromTime t1) < 10 ^ 2" "nat (MinFromTime t2) < 10 ^ 2"
     "nat (SecFromTime t1) < 10 ^ 2" "nat (SecFromTime t2) < 10 ^ 2"
     "nat (msFromTime t1) < 10 ^ 3" "nat (msFromTime t2) < 10 ^ 3"
    using r1 r2 by simp_all
  have ms: "nat (msFromTime t1) < nat (msFromTime t2) \<Longrightarrow>
      digits 3 (nat (msFromTime t1)) @ ''Z'' < digits 3 (nat (msFromTime t2)) @ ''Z''"
    by (rule block_less[OF b(7,8)]) simp
  have s: "nat (SecFromTime t1) < nat (SecFromTime t2) \<or>
              (nat (SecFromTime t1) = nat (SecFromTime t2) \<and>
                 nat (msFromTime t1) < nat (msFromTime t2)) \<Longrightarrow>
      digits 2 (nat (SecFromTime t1)) @ ''-'' @ digits 3 (nat (msFromTime t1)) @ ''Z''
      < digits 2 (nat (SecFromTime t2)) @ ''-'' @ digits 3 (nat (msFromTime t2)) @ ''Z''"
    by (rule block_less[OF b(5,6)]) (use ms in \<open>auto simp: append_same_less\<close>)
  have m: "nat (MinFromTime t1) < nat (MinFromTime t2) \<or>
          (nat (MinFromTime t1) = nat (MinFromTime t2) \<and>
            (nat (SecFromTime t1) < nat (SecFromTime t2) \<or>
              (nat (SecFromTime t1) = nat (SecFromTime t2) \<and>
                 nat (msFromTime t1) < nat (msFromTime t2)))) \<Longrightarrow>
      digits 2 (nat (MinFromTime t1)) @ ''-'' @ digits 2 (nat (SecFromTime t1)) @ ''-'' @
        digits 3 (nat (msFromTime t1)) @ ''Z''
      < digits 2 (nat (MinFromTime t2)) @ ''-'' @ digits 2 (nat (SecFromTime t2)) @ ''-'' @
        digits 3 (nat (msFromTime t2)) @ ''Z''"
    by (rule block_less[OF b(3,4)]) (use s in \<open>auto simp: append_same_less\<close>)
  show ?thesis
    unfolding timeOfDay_def
    by (rule block_less[OF b(1,2)]) (use m lex in \<open>auto simp: append_same_less\<close>)
qed

lemma Day_mono: "t1 \<le> t2 \<Longrightarrow> Day t1 \<le> Day t2"
  by (simp add: Day_def msPerDay_def zdiv_mono1)

lemma year_in_range:
  assumes "- 62167219200000 \<le> t" and "t \<le> 253402300799999"
  shows "0 \<le> YearFromTime t" "YearFromTime t \<le> 9999"
proof -
  have lo: "YearFromTime (- 62167219200000) = 0"
    by (simp add: YearFromTime_def Day_def msPerDay_def YearFromDay_def DayFromYear_def Let_def)
  have hi: "YearFromTime 253402300799999 = 9999"
    by (simp add: YearFromTime_def Day_def msPerDay_def YearFromDay_def DayFromYear_def Let_def)
  show "0 \<le> YearFromTime t"
    using YearFromDay_mono[OF Day_mono[OF assms(1)]] lo by (simp add: YearFromTime_def)
  show "YearFromTime t \<le> 9999"
    using YearFromDay_mono[OF Day_mono[OF assms(2)]] hi by (simp add: YearFromTime_def)
qed

lemma timestamp_less:
  assumes "- 62167219200000 \<le> t1" and "t1 < t2" and "t2 \<le> 253402300799999"
  shows "dashTimestamp (toISOString t1) < dashTimestamp (toISOString t2)"
proof -
  have y1: "0 \<le> YearFromTime t1" "YearFromTime t1 \<le> 9999"
    using year_in_range[of t1] assms by simp_all
  have y2: "0 \<le> YearFromTime t2" "YearFromTime t2 \<le> 9999"
    using year_in_range[of t2] assms by simp_all
  have form: "\<And>t. 0 \<le> YearFromTime t \<Longrightarrow> YearFromTime t \<le> 9999 \<Longrightarrow>
      dashTimestamp (toISOString t) =
        digits 4 (nat (YearFromTime t)) @ ''-'' @ digits 2 (nat (MonthFromTime t + 1)) @ ''-'' @
        digits 2 (nat (DateFromTime t)) @ ''T'' @ timeOfDay t"
    by (simp add: dashed_toISOString timeOfDay_def isoYear_def)
  have by': "nat (YearFromTime t1) < 10 ^ 4" "nat (YearFromTime t2) < 10 ^ 4"
    using y1 y2 by simp_all
  have bm: "nat (MonthFromTime t1 + 1) < 10 ^ 2" "nat (MonthFromTime t2 + 1) < 10 ^ 2"
    using month_range[of t1] month_range[of t2] by simp_all
  have bd: "nat (DateFromTime t1) < 10 ^ 2" "nat (DateFromTime t2) < 10 ^ 2"
    using date_range[of t1] date_range[of t2] by simp_all
  have dle: "Day t1 \<le> Day t2" using assms(2) by (simp add: Day_mono)
  show ?thesis
  proof (cases "Day t1 = Day t2")
    case True
    then have same: "YearFromTime t1 = YearFromTime t2" "MonthFromTime t1 = MonthFromTime t2"
      "DateFromTime t1 = DateFromTime t2"
      by (simp_all add: YearFromTime_def MonthFromTime_def DateFromTime_def DayWithinYear_def
          InLeapYear_def)
    from timeOfDay_less[OF assms(2) True] show ?thesis
      unfolding form[OF y1] form[OF y2] same by (simp add: append_same_less)
  next
    case False
    with dle have dlt: "Day t1 < Day t2" by simp
    have yle: "YearFromTime t1 \<le> YearFromTime t2"
      using YearFromDay_mono[OF dle] by (simp add: YearFromTime_def)
    have md: "YearFromTime t1 = YearFromTime t2 \<Longrightarrow>
        digits 2 (nat (MonthFromTime t1 + 1)) @ ''-'' @ digits 2 (nat (DateFromTime t1)) @ ''T'' @ timeOfDay t1
        < digits 2 (nat (MonthFromTime t2 + 1)) @ ''-'' @ digits 2 (nat (DateFromTime t2)) @ ''T'' @ timeOfDay t2"
    proof -
      assume "YearFromTime t1 = YearFromTime t2"
      from month_date_lex[OF this dlt] month_range[of t1] month_range[of t2]
        date_range[of t1] date_range[of t2]
      have lex: "nat (MonthFromTime t1 + 1) < nat (MonthFromTime t2 + 1) \<or>
          (nat (MonthFromTime t1 + 1) = nat (MonthFromTime t2 + 1) \<and>
             nat (DateFromTime t1) < nat (DateFromTime t2))" by auto
      have d: "nat (DateFromTime t1) < nat (DateFromTime t2) \<Longrightarrow>
          digits 2 (nat (DateFromTime t1)) @ ''T'' @ timeOfDay t1
          < digits 2 (nat (DateFromTime t2)) @ ''T'' @ timeOfDay t2"
        by (rule block_less[OF bd]) simp
      show ?thesis
        by (rule block_less[OF bm]) (use lex d in \<open>auto simp: append_same_less\<close>)
    qed
    have "nat (YearFromTime t1) < nat (YearFromTime t2) \<or>
        (nat (YearFromTime t1) = nat (YearFromTime t2) \<and> YearFromTime t1 = YearFromTime t2)"
      using yle y1 y2 by auto
    then show ?thesis
      unfolding form[OF y1] form[OF y2]
      by (intro block_less[OF by']) (use md in \<open>auto simp: append_same_less\<close>)
  qed
qed

lemma timestamp_length:
  assumes "- 62167219200000 \<le> t" and "t \<le> 253402300799999"
  shows "length (dashTimestamp (toISOString t)) = 24"
  using year_in_range[OF assms] by (simp add: dashed_toISOString isoYear_def)

lemma sorted_le_last:
  fixes xs :: "'a::linorder list"
  shows "sorted xs \<Longrightarrow> x \<in> set xs \<Longrightarrow> x \<le> last xs"
  by (induction xs) auto

lemma last_sort_map:
  fixes g :: "int \<Rightarrow> 'a::linorder"
  assumes "ts \<noteq> []" and mono: "\<And>a b. a \<in> set ts \<Longrightarrow> b \<in> set ts \<Longrightarrow> a < b \<Longrightarrow> g a < g b"
  shows "last (sort (map g ts)) = g (Max (set ts))"
proof -
  let ?xs = "sort (map g ts)"
  have ne: "?xs \<noteq> []" using assms(1) by (metis length_0_conv length_map length_sort)
  have M: "Max (set ts) \<in> set ts" using assms(1) by simp
  then have "g (Max (set ts)) \<in> set ?xs" by simp
  then have ge: "g (Max (set ts)) \<le> last ?xs" by (rule sorted_le_last[OF sorted_sort])
  have "last ?xs \<in> set ?xs" using ne by (rule last_in_set)
  then obtain t where t: "t \<in> set ts" "last ?xs = g t" by auto
  have "t \<le> Max (set ts)" using t(1) by simp
  then have "g t \<le> g (Max (set ts))" using mono[OF t(1) M] by (cases "t = Max (set ts)") auto
  with ge t(2) show ?thesis by simp
qed

lemma endsWith_append: "endsWith (x @ ext) ext"
  by (simp add: endsWith_def)

lemma joinPath5: "joinPath [a, b, c, d, e] = (a @ ''/'' @ b @ ''/'' @ c @ ''/'' @ d @ ''/'') @ e"
  by simp

lemma stampedName_less:
  assumes "- 62167219200000 \<le> t1" and "t1 < t2" and "t2 \<le> 253402300799999"
  shows "stampedName urlObj t1 < stampedName urlObj t2"
    and "pre @ stampedName urlObj t1 @ ext < pre @ stampedName urlObj t2 @ ext"
proof -
  show lt: "stampedName urlObj t1 < stampedName urlObj t2"
    unfolding stampedName_def using timestamp_less[OF assms] by (simp add: append_same_less)
  have len: "length (stampedName urlObj t1) = length (stampedName urlObj t2)"
    using timestamp_length[of t1] timestamp_length[of t2] assms by (simp add: stampedName_def)
  show "pre @ stampedName urlObj t1 @ ext < pre @ stampedName urlObj t2 @ ext"
    using lt by (simp add: append_same_less append_less_eq_len[OF len])
qed

text \<open>Evaluating the rendering at instants.\<close>

lemma char_of_code: "char_of (of_char c :: nat) = c"
  by (rule char_of_char)

lemma digit_chars:
  "digit 0 = CHR ''0''" "digit 1 = CHR ''1''" "digit 2 = CHR ''2''" "digit 3 = CHR ''3''"
  "digit 4 = CHR ''4''" "digit 5 = CHR ''5''" "digit 6 = CHR ''6''" "digit 7 = CHR ''7''"
  "digit 8 = CHR ''8''" "digit 9 = CHR ''9''" "digit (Suc 0) = CHR ''1''"
  using char_of_code[of "CHR ''0''"] char_of_code[of "CHR ''1''"] char_of_code[of "CHR ''2''"]
    char_of_code[of "CHR ''3''"] char_of_code[of "CHR ''4''"] char_of_code[of "CHR ''5''"]
    char_of_code[of "CHR ''6''"] char_of_code[of "CHR ''7''"] char_of_code[of "CHR ''8''"]
    char_of_code[of "CHR ''9''"]
  by (simp_all add: digit_def)

lemma digits_unfold:
  "digits 2 n = [digit (n div 10 mod 10), digit (n mod 10)]"
  "digits 3 n = [digit (n div 100 mod 10), digit (n div 10 mod 10), digit (n mod 10)]"
  "digits 4 n = [digit (n div 1000 mod 10), digit (n div 100 mod 10), digit (n div 10 mod 10), digit (n mod 10)]"
  "digits 6 n = [digit (n div 100000 mod 10), digit (n div 10000 mod 10), digit (n div 1000 mod 10),
      digit (n div 100 mod 10), digit (n div 10 mod 10), digit (n mod 10)]"
proof -
  have n: "(2::nat) = Suc (Suc 0)" "(3::nat) = Suc (Suc (Suc 0))"
    "(4::nat) = Suc (Suc (Suc (Suc 0)))" "(6::nat) = Suc (Suc (Suc (Suc (Suc (Suc 0)))))"
    by simp_all
  have d: "\<And>k. digit k = digit (k mod 10)" by (simp add: digit_def)
  have dd: "n div 10 div 10 = n div 100" "n div 100 div 10 = n div 1000"
    "n div 1000 div 10 = n div 10000" "n div 10000 div 10 = n div 100000"
    by (simp_all add: div_mult2_eq[symmetric])
  show "digits 2 n = [digit (n div 10 mod 10), digit (n mod 10)]"
    unfolding n(1) digits.simps using d[of n] d[of "n div 10"] by simp
  show "digits 3 n = [digit (n div 100 mod 10), digit (n div 10 mod 10), digit (n mod 10)]"
    unfolding n(2) digits.simps dd using d[of n] d[of "n div 10"] d[of "n div 100"] by simp
  show "digits 4 n = [digit (n div 1000 mod 10), digit (n div 100 mod 10), digit (n div 10 mod 10), digit (n mod 10)]"
    unfolding n(3) digits.simps dd
    using d[of n] d[of "n div 10"] d[of "n div 100"] d[of "n div 1000"] by simp
  show "digits 6 n = [digit (n div 100000 mod 10), digit (n div 10000 mod 10), digit (n div 1000 mod 10),
      digit (n div 100 mod 10), digit (n div 10 mod 10), digit (n mod 10)]"
    unfolding n(4) digits.simps dd
    using d[of n] d[of "n div 10"] d[of "n div 100"] d[of "n div 1000"] d[of "n div 10000"]
      d[of "n div 100000"] by simp
qed


lemmas date_defs = Day_def msPerDay_def YearFromDay_def DayFromYear_def DaysInYear_def
  DayWithinYear_def InLeapYear_def

lemmas time_defs = HourFromTime_def MinFromTime_def SecFromTime_def msFromTime_def

lemma year_10000:
  "YearFromTime 253402300800000 = 10000" "MonthFromTime 253402300800000 = 0"
  "DateFromTime 253402300800000 = 1"
proof -
  show y: "YearFromTime 253402300800000 = 10000"
    by (simp add: YearFromTime_def date_defs Let_def)
  show m: "MonthFromTime 253402300800000 = 0"
    by (simp add: MonthFromTime_def y date_defs Let_def)
  show "DateFromTime 253402300800000 = 1"
    by (simp add: DateFromTime_def m y date_defs Let_def)
qed

lemma year_9999:
  "YearFromTime 253402300799999 = 9999" "MonthFromTime 253402300799999 = 11"
  "DateFromTime 253402300799999 = 31"
proof -
  show y: "YearFromTime 253402300799999 = 9999"
    by (simp add: YearFromTime_def date_defs Let_def)
  show m: "MonthFromTime 253402300799999 = 11"
    by (simp add: MonthFromTime_def y date_defs Let_def)
  show "DateFromTime 253402300799999 = 31"
    by (simp add: DateFromTime_def m y date_defs Let_def)
qed

lemma iso_10000: "toISOString 253402300800000 = ''+010000-01-01T00:00:00.000Z''"
  by (simp add: toISOString_def year_10000 isoYear_def time_defs digits_unfold digit_chars)

lemma iso_9999: "toISOString 253402300799999 = ''9999-12-31T23:59:59.999Z''"
  by (simp add: toISOString_def year_9999 isoYear_def time_defs digits_unfold digit_chars)

lemma name_at_end_of_9999: "generateFilename sampleParser 253402300799999 ''https://www.spacenk.com'' =
     Inr ''__9999-12-31T23-59-59-999Z''"
  by (simp add: generateFilename_def sampleParser_def iso_9999 sanitizePath_def replace_char_def
      isSafeChar_def dashTimestamp_def)

lemma name_at_start_of_10000: "generateFilename sampleParser 253402300800000 ''https://www.spacenk.com'' =
     Inr ''__+010000-01-01T00-00-00-000Z''"
  by (simp add: generateFilename_def sampleParser_def iso_10000 sanitizePath_def replace_char_def
      isSafeChar_def dashTimestamp_def)

lemma latest_of_9999_and_10000: "getLatestFile (\<lambda>d. Some [''__9999-12-31T23-59-59-999Z.html'', ''__+010000-01-01T00-00-00-000Z.html''])
      ''/work/output/www-spacenk-com/html'' ''.html'' =
     Some ''/work/output/www-spacenk-com/html/__9999-12-31T23-59-59-999Z.html''"
  by (simp add: getLatestFile_def endsWith_def less_eq_char_def less_char_def)

lemma feb_2026:
  "YearFromTime 1772020800000 = 2026" "MonthFromTime 1772020800000 = 1"
  "DateFromTime 1772020800000 = 25"
  "YearFromTime 1772020800001 = 2026" "MonthFromTime 1772020800001 = 1"
  "DateFromTime 1772020800001 = 25"
proof -
  show y: "YearFromTime 1772020800000 = 2026"
    by (simp add: YearFromTime_def date_defs Let_def)
  show m: "MonthFromTime 1772020800000 = 1"
    by (simp add: MonthFromTime_def y date_defs Let_def)
  show "DateFromTime 1772020800000 = 25"
    by (simp add: DateFromTime_def m y date_defs Let_def)
  show y': "YearFromTime 1772020800001 = 2026"
    by (simp add: YearFromTime_def date_defs Let_def)
  show m': "MonthFromTime 1772020800001 = 1"
    by (simp add: MonthFromTime_def y' date_defs Let_def)
  show "DateFromTime 1772020800001 = 25"
    by (simp add: DateFromTime_def m' y' date_defs Let_def)
qed

lemma iso_2026:
  "toISOString 1772020800000 = ''2026-02-25T12:00:00.000Z''"
  "toISOString 1772020800001 = ''2026-02-25T12:00:00.001Z''"
  by (simp_all add: toISOString_def feb_2026 isoYear_def time_defs digits_unfold digit_chars)

lemma names_2026:
  "generateFilename sampleParser 1772020800000 ''https://my-shop.example.com/new/items.html'' =
     Inr ''_new_itemshtml_2026-02-25T12-00-00-000Z''"
  "generateFilename sampleParser 1772020800001 ''https://my-shop.example.com/new/items.html'' =
     Inr ''_new_itemshtml_2026-02-25T12-00-00-001Z''"
  by (simp_all add: generateFilename_def sampleParser_def iso_2026 sanitizePath_def replace_char_def
      isSafeChar_def dashTimestamp_def)

lemma sanitizePath_concat:
  "sanitizePath p =
     concat (map (\<lambda>c. if c = CHR ''/'' then ''_'' else if isSafeChar c then [c] else []) p)"
  by (induction p) (simp_all add: sanitizePath_def replace_char_def isSafeChar_def)

lemma sanitizePath_safe: "list_all isSafeChar (sanitizePath p)"
  by (simp add: sanitizePath_def list_all_iff)

lemma isDigitChar_digit: "isDigitChar (digit n)"
  using digit_bounds[of n] by (simp add: isDigitChar_def)

lemma isDigitChar_safe: "isDigitChar c \<Longrightarrow> isSafeChar c"
  by (simp add: isDigitChar_def isSafeChar_def)

lemma digits_all_digit: "list_all isDigitChar (digits w n)"
  by (induction w arbitrary: n) (simp_all add: isDigitChar_digit)

lemma list_all_weaken: "list_all P xs \<Longrightarrow> (\<And>x. P x \<Longrightarrow> Q x) \<Longrightarrow> list_all Q xs"
  by (simp add: list_all_iff)

lemma timestamp_chars:
  "list_all (\<lambda>c. isDigitChar c \<or> c = CHR ''-'' \<or> c = CHR ''T'' \<or> c = CHR ''Z'' \<or> c = CHR ''+'')
     (dashTimestamp (toISOString t))"
  "YearFromTime t \<le> 9999 \<Longrightarrow>
   list_all (\<lambda>c. isDigitChar c \<or> c = CHR ''-'' \<or> c = CHR ''T'' \<or> c = CHR ''Z'')
     (dashTimestamp (toISOString t))"
proof -
  have d: "\<And>w n. list_all (\<lambda>c. isDigitChar c \<or> c = CHR ''-'' \<or> c = CHR ''T'' \<or> c = CHR ''Z'' \<or> c = CHR ''+'') (digits w n)"
    by (rule list_all_weaken[OF digits_all_digit]) simp
  have d': "\<And>w n. list_all (\<lambda>c. isDigitChar c \<or> c = CHR ''-'' \<or> c = CHR ''T'' \<or> c = CHR ''Z'') (digits w n)"
    by (rule list_all_weaken[OF digits_all_digit]) simp
  show "list_all (\<lambda>c. isDigitChar c \<or> c = CHR ''-'' \<or> c = CHR ''T'' \<or> c = CHR ''Z'' \<or> c = CHR ''+'')
     (dashTimestamp (toISOString t))"
    by (simp add: dashed_toISOString isoYear_def d)
  show "YearFromTime t \<le> 9999 \<Longrightarrow>
   list_all (\<lambda>c. isDigitChar c \<or> c = CHR ''-'' \<or> c = CHR ''T'' \<or> c = CHR ''Z'')
     (dashTimestamp (toISOString t))"
    by (simp add: dashed_toISOString isoYear_def d')
qed

lemma year_le_9999: "t \<le> 253402300799999 \<Longrightarrow> YearFromTime t \<le> 9999"
  using YearFromDay_mono[OF Day_mono[of t 253402300799999]] year_9999(1)
  by (simp add: YearFromTime_def)

text \<open>
  C6, as stated for any two instants, fails where the ISO year changes its width: the
  instant after 9999-12-31T23:59:59.999Z is rendered with the expanded year
  \<^verbatim>\<open>+010000\<close>, which sorts before \<^verbatim>\<open>9999\<close>, so the later file name is the smaller
  one and \<open>getLatestFile\<close> returns the older capture.
\<close>

theorem C6_year_10000_sorts_before_9999:
  "generateFilename sampleParser 253402300799999 ''https://www.spacenk.com'' =
     Inr ''__9999-12-31T23-59-59-999Z'' \<and>
   generateFilename sampleParser 253402300800000 ''https://www.spacenk.com'' =
     Inr ''__+010000-01-01T00-00-00-000Z'' \<and>
   ''__+010000-01-01T00-00-00-000Z'' < ''__9999-12-31T23-59-59-999Z'' \<and>
   getLatestFile
     (\<lambda>d. Some [''__9999-12-31T23-59-59-999Z.html'', ''__+010000-01-01T00-00-00-000Z.html''])
     ''/work/output/www-spacenk-com/html'' ''.html'' =
     Some ''/work/output/www-spacenk-com/html/__9999-12-31T23-59-59-999Z.html''"
  using name_at_end_of_9999 name_at_start_of_10000 latest_of_9999_and_10000
  by (simp add: less_char_def)

text \<open>
  C6, amended: for two generations for the same URL at instants at least 1 ms apart,
  both between 0000-01-01T00:00:00.000Z and 9999-12-31T23:59:59.999Z, the names are
  distinct and the later instant gives the greater name, and so for the paths of the
  HTML file and of the screenshot; and when a directory lists the files generated for
  one URL at instants in that range, \<open>getLatestFile\<close> returns the file of the latest
  instant.
\<close>

theorem C6_filenames_ordered_by_time:
  assumes "parseURL u = Some urlObj"
    and "- 62167219200000 \<le> t1" and "t1 < t2" and "t2 \<le> 253402300799999"
    and "ts \<noteq> []" and "\<forall>t \<in> set ts. - 62167219200000 \<le> t \<and> t \<le> 253402300799999"
    and "readdir dir = Some (map (\<lambda>t. projr (generateFilename parseURL t u) @ ext) ts)"
  shows "(\<exists>n1 n2. generateFilename parseURL t1 u = Inr n1 \<and> generateFilename parseURL t2 u = Inr n2 \<and>
            n1 \<noteq> n2 \<and> n1 < n2 \<and>
            joinPath [c, ''output'', d, ''html'', n1 @ ''.html''] <
              joinPath [c, ''output'', d, ''html'', n2 @ ''.html''] \<and>
            joinPath [c, ''output'', d, ''screenshots'', n1 @ ''.png''] <
              joinPath [c, ''output'', d, ''screenshots'', n2 @ ''.png'']) \<and>
         getLatestFile readdir dir ext =
           Some (joinPath [dir, projr (generateFilename parseURL (Max (set ts)) u) @ ext])"
proof
  have g: "\<And>t. generateFilename parseURL t u = Inr (stampedName urlObj t)"
    using assms(1) by (simp add: generateFilename_def stampedName_def)
  note lt = stampedName_less[OF assms(2,3,4), where urlObj = urlObj]
  have "stampedName urlObj t1 \<noteq> stampedName urlObj t2" using lt(1) by simp
  moreover have "joinPath [c, ''output'', d, ''html'', stampedName urlObj t1 @ ''.html''] <
              joinPath [c, ''output'', d, ''html'', stampedName urlObj t2 @ ''.html'']"
    unfolding joinPath5 using lt(2)[where pre = "[]" and ext = "''.html''"] by (simp only: append_same_less append_Nil)
  moreover have "joinPath [c, ''output'', d, ''screenshots'', stampedName urlObj t1 @ ''.png''] <
              joinPath [c, ''output'', d, ''screenshots'', stampedName urlObj t2 @ ''.png'']"
    unfolding joinPath5 using lt(2)[where pre = "[]" and ext = "''.png''"] by (simp only: append_same_less append_Nil)
  ultimately show "\<exists>n1 n2. generateFilename parseURL t1 u = Inr n1 \<and> generateFilename parseURL t2 u = Inr n2 \<and>
            n1 \<noteq> n2 \<and> n1 < n2 \<and>
            joinPath [c, ''output'', d, ''html'', n1 @ ''.html''] <
              joinPath [c, ''output'', d, ''html'', n2 @ ''.html''] \<and>
            joinPath [c, ''output'', d, ''screenshots'', n1 @ ''.png''] <
              joinPath [c, ''output'', d, ''screenshots'', n2 @ ''.png'']"
    using g lt(1) by simp
next
  have g: "\<And>t. projr (generateFilename parseURL t u) = stampedName urlObj t"
    using assms(1) by (simp add: generateFilename_def stampedName_def)
  let ?f = "\<lambda>t. joinPath [dir, stampedName urlObj t @ ext]"
  have keep: "filter (\<lambda>f. endsWith f ext) (map (\<lambda>t. stampedName urlObj t @ ext) ts) =
      map (\<lambda>t. stampedName urlObj t @ ext) ts"
    by (simp add: endsWith_append)
  have mono: "\<And>a b. a \<in> set ts \<Longrightarrow> b \<in> set ts \<Longrightarrow> a < b \<Longrightarrow> ?f a < ?f b"
  proof -
    fix a b assume "a \<in> set ts" "b \<in> set ts" "a < b"
    with assms(6) have "- 62167219200000 \<le> a" "a < b" "b \<le> 253402300799999" by auto
    from stampedName_less(2)[OF this, where pre = "dir @ ''/''" and urlObj = urlObj and ext = ext] show "?f a < ?f b"
      by simp
  qed
  have "getLatestFile readdir dir ext = Some (last (sort (map ?f ts)))"
    using assms(5,7) by (simp add: getLatestFile_def g keep Let_def comp_def del: joinPath.simps)
  with last_sort_map[OF assms(5) mono] g
  show "getLatestFile readdir dir ext =
           Some (joinPath [dir, projr (generateFilename parseURL (Max (set ts)) u) @ ext])"
    by simp
qed

theorem C6_filenames_ordered_by_time_witness:
  "generateFilename sampleParser 1772020800000 ''https://my-shop.example.com/new/items.html'' =
     Inr ''_new_itemshtml_2026-02-25T12-00-00-000Z'' \<and>
   generateFilename sampleParser 1772020800001 ''https://my-shop.example.com/new/items.html'' =
     Inr ''_new_itemshtml_2026-02-25T12-00-00-001Z'' \<and>
   ''_new_itemshtml_2026-02-25T12-00-00-000Z'' < ''_new_itemshtml_2026-02-25T12-00-00-001Z'' \<and>
   getLatestFile
     (\<lambda>d. Some [''_new_itemshtml_2026-02-25T12-00-00-001Z.html'',
                 ''_new_itemshtml_2026-02-25T12-00-00-000Z.html''])
     ''/work/output/my-shop-example-com/html'' ''.html'' =
     Some ''/work/output/my-shop-example-com/html/_new_itemshtml_2026-02-25T12-00-00-001Z.html''"
  using C6_filenames_ordered_by_time[where parseURL = sampleParser and u = "''https://my-shop.example.com/new/items.html''"
      and urlObj = "\<lparr>hostname = ''my-shop.example.com'', pathname = ''/new/items.html'',
                 origin = ''https://my-shop.example.com''\<rparr>"
      and ?t1.0 = 1772020800000 and ?t2.0 = 1772020800001
      and ts = "[1772020800001, 1772020800000]"
      and readdir = "\<lambda>d. Some [''_new_itemshtml_2026-02-25T12-00-00-001Z.html'',
                 ''_new_itemshtml_2026-02-25T12-00-00-000Z.html'']"
      and dir = "''/work/output/my-shop-example-com/html''" and ext = "''.html''"]
  by (simp add: names_2026 sampleParser_def)

text \<open>
  C10, as stated, fails in the characters of the time stamp: from the year 10000 on the
  ISO year carries a plus sign.
\<close>

theorem C10_plus_sign_in_year_10000:
  "generateFilename sampleParser 253402300800000 ''https://www.spacenk.com'' =
     Inr ''__+010000-01-01T00-00-00-000Z'' \<and>
   \<not> list_all isSafeChar ''__+010000-01-01T00-00-00-000Z''"
  using name_at_start_of_10000 by (simp add: isSafeChar_def)

text \<open>
  C10, amended: the name is the sanitised path, an underscore and the time stamp. In the
  path every \<^verbatim>\<open>/\<close> has become \<^verbatim>\<open>_\<close> and every other character outside
  \<^verbatim>\<open>[a-zA-Z0-9_-]\<close> is gone. The time stamp has only digits, hyphens, \<^verbatim>\<open>T\<close> and
  \<^verbatim>\<open>Z\<close> up to the end of the year 9999, and a leading plus sign besides from then on.
  So a name never has a path separator: its characters are ASCII letters, digits,
  underscores and hyphens, and the plus sign of a year after 9999.
\<close>

theorem C10_filename_characters:
  "generateFilename parseURL now u = Inr n \<longrightarrow>
     (\<exists>urlObj. parseURL u = Some urlObj \<and>
        n = sanitizePath (pathname urlObj) @ ''_'' @ dashTimestamp (toISOString now) \<and>
        sanitizePath (pathname urlObj) =
          concat (map (\<lambda>c. if c = CHR ''/'' then ''_'' else if isSafeChar c then [c] else [])
            (pathname urlObj)) \<and>
        list_all isSafeChar (sanitizePath (pathname urlObj))) \<and>
     list_all (\<lambda>c. isDigitChar c \<or> c = CHR ''-'' \<or> c = CHR ''T'' \<or> c = CHR ''Z'' \<or> c = CHR ''+'')
       (dashTimestamp (toISOString now)) \<and>
     list_all (\<lambda>c. isSafeChar c \<or> c = CHR ''+'') n \<and> CHR ''/'' \<notin> set n \<and>
     (now \<le> 253402300799999 \<longrightarrow>
        list_all (\<lambda>c. isDigitChar c \<or> c = CHR ''-'' \<or> c = CHR ''T'' \<or> c = CHR ''Z'')
          (dashTimestamp (toISOString now)) \<and>
        list_all isSafeChar n)"
proof
  assume g: "generateFilename parseURL now u = Inr n"
  then obtain urlObj where p: "parseURL u = Some urlObj"
    and n: "n = sanitizePath (pathname urlObj) @ ''_'' @ dashTimestamp (toISOString now)"
    by (auto simp: generateFilename_def split: option.splits)
  let ?ts = "dashTimestamp (toISOString now)"
  have safe: "\<And>c. isDigitChar c \<or> c = CHR ''-'' \<or> c = CHR ''T'' \<or> c = CHR ''Z'' \<Longrightarrow> isSafeChar c"
    using isDigitChar_safe by (auto simp: isSafeChar_def)
  have ts1: "list_all (\<lambda>c. isSafeChar c \<or> c = CHR ''+'') ?ts"
    by (rule list_all_weaken[OF timestamp_chars(1)]) (use safe in auto)
  have st: "list_all (\<lambda>c. isSafeChar c \<or> c = CHR ''+'') (sanitizePath (pathname urlObj))"
    by (rule list_all_weaken[OF sanitizePath_safe]) simp
  have all: "list_all (\<lambda>c. isSafeChar c \<or> c = CHR ''+'') n"
    using ts1 st by (simp add: n isSafeChar_def)
  have noslash: "CHR ''/'' \<notin> set n"
    using all by (auto simp: list_all_iff isSafeChar_def)
  have inrange: "now \<le> 253402300799999 \<longrightarrow>
        list_all (\<lambda>c. isDigitChar c \<or> c = CHR ''-'' \<or> c = CHR ''T'' \<or> c = CHR ''Z'') ?ts \<and>
        list_all isSafeChar n"
  proof
    assume "now \<le> 253402300799999"
    then have y: "YearFromTime now \<le> 9999" by (rule year_le_9999)
    have "list_all isSafeChar ?ts"
      by (rule list_all_weaken[OF timestamp_chars(2)[OF y]]) (use safe in auto)
    then have "list_all isSafeChar n"
      using sanitizePath_safe[of "pathname urlObj"] by (simp add: n isSafeChar_def)
    with timestamp_chars(2)[OF y]
    show "list_all (\<lambda>c. isDigitChar c \<or> c = CHR ''-'' \<or> c = CHR ''T'' \<or> c = CHR ''Z'') ?ts \<and>
        list_all isSafeChar n" by simp
  qed
  from p n sanitizePath_concat[of "pathname urlObj"] sanitizePath_safe[of "pathname urlObj"]
    timestamp_chars(1)[of now] all noslash inrange
  show "(\<exists>urlObj. parseURL u = Some urlObj \<and>
        n = sanitizePath (pathname urlObj) @ ''_'' @ dashTimestamp (toISOString now) \<and>
        sanitizePath (pathname urlObj) =
          concat (map (\<lambda>c. if c = CHR ''/'' then ''_'' else if isSafeChar c then [c] else [])
            (pathname urlObj)) \<and>
        list_all isSafeChar (sanitizePath (pathname urlObj))) \<and>
     list_all (\<lambda>c. isDigitChar c \<or> c = CHR ''-'' \<or> c = CHR ''T'' \<or> c = CHR ''Z'' \<or> c = CHR ''+'')
       (dashTimestamp (toISOString now)) \<and>
     list_all (\<lambda>c. isSafeChar c \<or> c = CHR ''+'') n \<and> CHR ''/'' \<notin> set n \<and>
     (now \<le> 253402300799999 \<longrightarrow>
        list_all (\<lambda>c. isDigitChar c \<or> c = CHR ''-'' \<or> c = CHR ''T'' \<or> c = CHR ''Z'')
          (dashTimestamp (toISOString now)) \<and>
        list_all isSafeChar n)"
    by blast
qed


theorem C10_filename_characters_witness:
  "generateFilename sampleParser 1772020800000 ''https://my-shop.example.com/new/items.html'' =
     Inr ''_new_itemshtml_2026-02-25T12-00-00-000Z'' \<and>
   list_all isSafeChar ''_new_itemshtml_2026-02-25T12-00-00-000Z'' \<and>
   CHR ''/'' \<notin> set ''_new_itemshtml_2026-02-25T12-00-00-000Z''"
  using C10_filename_characters[of sampleParser 1772020800000
      "''https://my-shop.example.com/new/items.html''" "''_new_itemshtml_2026-02-25T12-00-00-000Z''"]
    names_2026(1)
  by simp

end
